theory Spec2Isabelle
  imports Main "HOL-Library.Word"
begin

unbundle bit_operations_syntax

section \<open>Data model\<close>

text \<open>
  The decoder \<open>arduino_UNO.read_timestamps\<close> of \<open>plupy.py\<close> takes a Python \<open>bytes\<close>
  object and a flag \<open>legacy\<close>. Bytes are 8-bit words, Python integers are \<open>int\<close>, the
  numpy \<open>int64\<close> array of timestamps is a list of 64-bit words read as signed numbers.
  Every exception the modelled code can raise is a value of \<open>error\<close>.
\<close>

type_synonym byte = "8 word"

type_synonym int64 = "64 word"

datatype error = ValueError | OverflowError | IndexError

text \<open>
  An entry of \<open>event_channel_list\<close>: the bit string appended in legacy mode, the integer
  appended otherwise.
\<close>

datatype channel = ChStr string | ChInt int

section \<open>Word extraction\<close>

text \<open>\<open>bytes.hex()\<close>: two lower-case hexadecimal digits per byte, high nibble first.\<close>

definition hex_digit :: "nat \<Rightarrow> char" where
  "hex_digit n = ''0123456789abcdef'' ! n"

definition hex :: "byte list \<Rightarrow> string" where
  "hex bs = concat (map (\<lambda>b. [hex_digit (unat b div 16), hex_digit (unat b mod 16)]) bs)"

text \<open>
  \<open>int(s, 16)\<close> on a string of hexadecimal digits. The strings parsed by the decoder are
  slices of the output of \<open>hex\<close>; signs, prefixes, underscores and blanks, which Python's
  \<open>int\<close> also accepts, never occur there and are rejected here like any other character.
  The empty string raises \<open>ValueError\<close>.
\<close>

definition digit_value :: "char \<Rightarrow> int option" where
  "digit_value c =
     (let k = (of_char c :: nat) in
      if 48 \<le> k \<and> k \<le> 57 then Some (int k - 48)
      else if 97 \<le> k \<and> k \<le> 102 then Some (int k - 87)
      else if 65 \<le> k \<and> k \<le> 70 then Some (int k - 55)
      else None)"

fun parse16 :: "int \<Rightarrow> string \<Rightarrow> error + int" where
  "parse16 acc [] = Inr acc"
| "parse16 acc (c # cs) =
     (case digit_value c of
        None \<Rightarrow> Inl ValueError
      | Some d \<Rightarrow> parse16 (16 * acc + d) cs)"

definition int_base16 :: "string \<Rightarrow> error + int" where
  "int_base16 s = (if s = [] then Inl ValueError else parse16 0 s)"

text \<open>\<open>range(0, n, 8)\<close>.\<close>

definition range8 :: "nat \<Rightarrow> nat list" where
  "range8 n = map (\<lambda>k. 8 * k) [0 ..< (n + 7) div 8]"

text \<open>A list comprehension whose body may raise: the first exception ends it.\<close>

fun traverse :: "('a \<Rightarrow> error + 'b) \<Rightarrow> 'a list \<Rightarrow> error + 'b list" where
  "traverse f [] = Inr []"
| "traverse f (x # xs) =
     (case f x of
        Inl e \<Rightarrow> Inl e
      | Inr y \<Rightarrow> (case traverse f xs of Inl e \<Rightarrow> Inl e | Inr ys \<Rightarrow> Inr (y # ys)))"

text \<open>
  Lines 546 to 550: \<open>binary_stream[::-1].hex()\<close>, the slices \<open>bytes_hex[i : i + 8]\<close> for
  \<open>i\<close> in \<open>range(0, len(bytes_hex), 8)\<close>, each parsed in base 16, and the list reversed.
\<close>

definition ts_word_list :: "byte list \<Rightarrow> error + int list" where
  "ts_word_list binary_stream =
     (let bytes_hex = hex (rev binary_stream) in
      case traverse (\<lambda>i. int_base16 (take 8 (drop i bytes_hex))) (range8 (length bytes_hex)) of
        Inl e \<Rightarrow> Inl e
      | Inr ws \<Rightarrow> Inr (rev ws))"

section \<open>The decoding loop\<close>

text \<open>\<open>"{0:04b}".format(n)\<close>: binary digits, sign-aware zero padding to width 4.\<close>

fun bin_digits :: "nat \<Rightarrow> string" where
  "bin_digits n =
     (if n < 2 then [if n = 0 then CHR ''0'' else CHR ''1'']
      else bin_digits (n div 2) @ [if n mod 2 = 0 then CHR ''0'' else CHR ''1''])"

definition format_04b :: "int \<Rightarrow> string" where
  "format_04b n =
     (let s = bin_digits (nat \<bar>n\<bar>) in
      if n < 0 then CHR ''-'' # replicate (3 - length s) CHR ''0'' @ s
      else replicate (4 - length s) CHR ''0'' @ s)"

text \<open>The variables of the loop (lines 553 to 557).\<close>

record decoder =
  ts_list :: "int list"
  event_channel_list :: "channel list"
  periode_count :: int
  prev_ts :: int

definition periode_duration :: int where
  "periode_duration = push_bit 27 1"

definition decoder_init :: decoder where
  "decoder_init = \<lparr>ts_list = [], event_channel_list = [], periode_count = 0, prev_ts = - 1\<rparr>"

text \<open>The body of the loop (lines 560 to 585) on one word.\<close>

definition decode_word :: "bool \<Rightarrow> decoder \<Rightarrow> int \<Rightarrow> decoder" where
  "decode_word legacy st ts_word =
     (let time_stamp = drop_bit 5 ts_word;
          pattern = ts_word AND 0x1F;
          st1 = (if prev_ts st \<noteq> - 1 \<and> time_stamp < prev_ts st
                 then st\<lparr>periode_count := periode_count st + 1\<rparr> else st);
          st2 = st1\<lparr>prev_ts := time_stamp\<rparr>
      in if pattern AND 0x10 = 0
         then st2\<lparr>ts_list := ts_list st2 @ [time_stamp + periode_duration * periode_count st2],
                  event_channel_list := event_channel_list st2 @
                    [if legacy then ChStr (format_04b (pattern AND 0xF))
                     else ChInt (pattern AND 0xF)]\<rparr>
         else st2)"

text \<open>
  \<open>np.array(ts_list, dtype="int64")\<close> raises \<open>OverflowError\<close> on a Python integer outside
  the 64-bit signed range; the multiplication by 2 on the array wraps around silently.
\<close>

definition int64_array :: "int list \<Rightarrow> error + int64 list" where
  "int64_array xs =
     (if list_all (\<lambda>x. - (2 ^ 63) \<le> x \<and> x < 2 ^ 63) xs then Inr (map word_of_int xs)
      else Inl OverflowError)"

text \<open>
  The whole function. In non-legacy mode \<open>np.array(event_channel_list)\<close> holds the same
  integers (all below 16) in the same order.
\<close>

definition read_timestamps :: "byte list \<Rightarrow> bool \<Rightarrow> error + (int64 list \<times> channel list)" where
  "read_timestamps binary_stream legacy =
     (case ts_word_list binary_stream of
        Inl e \<Rightarrow> Inl e
      | Inr ws \<Rightarrow>
          (let st = foldl (decode_word legacy) decoder_init ws in
           case int64_array (ts_list st) of
             Inl e \<Rightarrow> Inl e
           | Inr a \<Rightarrow> Inr (map (\<lambda>t. t * 2) a, event_channel_list st)))"


section \<open>Channel pattern expansion\<close>

text \<open>
  \<open>arduino_UNO.channel_cleaner\<close> (lines 623 to 665) reads the characters 0 to 3 of each
  pattern; indexing a string beyond its end raises \<open>IndexError\<close>. The counters are Python
  integers that only grow from 0.
\<close>

definition char_at :: "string \<Rightarrow> nat \<Rightarrow> error + char" where
  "char_at s i = (if i < length s then Inr (s ! i) else Inl IndexError)"

record cleaner =
  cha_clean :: "string list list"
  counts_1 :: nat
  counts_2 :: nat
  counts_3 :: nat
  counts_4 :: nat

text \<open>The body of the loop on one pattern; \<open>channel\<close> is the list built for it.\<close>

definition clean_pattern :: "cleaner \<Rightarrow> string \<Rightarrow> error + cleaner" where
  "clean_pattern st cha_list =
     (case char_at cha_list 0 of
        Inl e \<Rightarrow> Inl e
      | Inr c0 \<Rightarrow>
     (let channel0 = (if c0 = CHR ''1'' then [''CH4''] else []);
          st0 = (if c0 = CHR ''1'' then st\<lparr>counts_4 := counts_4 st + 1\<rparr> else st)
      in case char_at cha_list 1 of
        Inl e \<Rightarrow> Inl e
      | Inr c1 \<Rightarrow>
     (let channel1 = (if c1 = CHR ''1'' then channel0 @ [''CH3''] else channel0);
          st1 = (if c1 = CHR ''1'' then st0\<lparr>counts_3 := counts_3 st0 + 1\<rparr> else st0)
      in case char_at cha_list 2 of
        Inl e \<Rightarrow> Inl e
      | Inr c2 \<Rightarrow>
     (let channel2 = (if c2 = CHR ''1'' then channel1 @ [''CH2''] else channel1);
          st2 = (if c2 = CHR ''1'' then st1\<lparr>counts_2 := counts_2 st1 + 1\<rparr> else st1)
      in case char_at cha_list 3 of
        Inl e \<Rightarrow> Inl e
      | Inr c3 \<Rightarrow>
     (let channel3 = (if c3 = CHR ''1'' then channel2 @ [''CH1''] else channel2);
          st3 = (if c3 = CHR ''1'' then st2\<lparr>counts_1 := counts_1 st2 + 1\<rparr> else st2)
      in Inr (st3\<lparr>cha_clean := cha_clean st3 @ [channel3]\<rparr>))))))"

fun clean_patterns :: "cleaner \<Rightarrow> string list \<Rightarrow> error + cleaner" where
  "clean_patterns st [] = Inr st"
| "clean_patterns st (cha_list # rest) =
     (case clean_pattern st cha_list of
        Inl e \<Rightarrow> Inl e
      | Inr st' \<Rightarrow> clean_patterns st' rest)"

definition channel_cleaner ::
    "string list \<Rightarrow> error + (string list list \<times> (nat \<times> nat \<times> nat \<times> nat))" where
  "channel_cleaner cha_info =
     (case clean_patterns
             \<lparr>cha_clean = [], counts_1 = 0, counts_2 = 0, counts_3 = 0, counts_4 = 0\<rparr> cha_info of
        Inl e \<Rightarrow> Inl e
      | Inr st \<Rightarrow> Inr (cha_clean st, (counts_1 st, counts_2 st, counts_3 st, counts_4 st)))"

section \<open>Vocabulary of the properties\<close>

text \<open>
  The parts of a word as the loop reads them: \<open>ts_word >> 5\<close> is the raw counter value,
  bit 4 of the trailer \<open>ts_word & 0x1F\<close> is the flag, the four bits below it are the
  channel pattern, appended as a bit string or as an integer.
\<close>

definition raw_counter :: "int \<Rightarrow> int" where
  "raw_counter w = drop_bit 5 w"

definition valid_word :: "int \<Rightarrow> bool" where
  "valid_word w = (w AND 0x10 = 0)"

definition render :: "bool \<Rightarrow> int \<Rightarrow> channel" where
  "render legacy w = (if legacy then ChStr (format_04b (w AND 0xF)) else ChInt (w AND 0xF))"

text \<open>
  Reading a result: whether the call returned, and the two returned sequences, the
  timestamps as the signed numbers the \<open>int64\<close> array holds.
\<close>

definition returned :: "error + 'a \<Rightarrow> bool" where
  "returned r = (case r of Inl e \<Rightarrow> False | Inr x \<Rightarrow> True)"

definition timestamps :: "error + (int64 list \<times> channel list) \<Rightarrow> int list" where
  "timestamps r = (case r of Inl e \<Rightarrow> [] | Inr (ts, ch) \<Rightarrow> map sint ts)"

definition channels :: "error + (int64 list \<times> channel list) \<Rightarrow> channel list" where
  "channels r = (case r of Inl e \<Rightarrow> [] | Inr (ts, ch) \<Rightarrow> ch)"

text \<open>The value of a byte group read as a little-endian and as a big-endian number.\<close>

fun le_uint :: "byte list \<Rightarrow> int" where
  "le_uint [] = 0"
| "le_uint (b # bs) = uint b + 256 * le_uint bs"

definition be_uint :: "byte list \<Rightarrow> int" where
  "be_uint ys = foldl (\<lambda>a b. 256 * a + uint b) 0 ys"

text \<open>
  The consecutive 4-byte groups of a stream in their original order, each read as a
  little-endian unsigned 32-bit integer.
\<close>

fun le_words :: "byte list \<Rightarrow> int list" where
  "le_words (a # b # c # d # rest) = le_uint [a, b, c, d] # le_words rest"
| "le_words _ = []"

text \<open>
  The words of a stream of any length: the groups are aligned to the end of the stream, so
  the bytes left over are the first ones, and they form a short first word.
\<close>

definition words_of :: "byte list \<Rightarrow> int list" where
  "words_of bs =
     (let r = length bs mod 4 in
      (if r = 0 then [] else [le_uint (take r bs)]) @ le_words (drop r bs))"

text \<open>Cutting a list into groups of four from the front; the last group may be shorter.\<close>

fun groups :: "'a list \<Rightarrow> 'a list list" where
  "groups (a # b # c # d # e # rest) = [a, b, c, d] # groups (e # rest)"
| "groups [] = []"
| "groups xs = [xs]"

definition slices :: "string \<Rightarrow> string list" where
  "slices s = map (\<lambda>i. take 8 (drop i s)) (range8 (length s))"

text \<open>
  The loop in closed form, from a rollover count \<open>c\<close> and a previous raw value \<open>p\<close>:
  \<open>run\<close> lists, for every valid word, its absolute tick count and the word itself;
  \<open>count_after\<close> and \<open>prev_after\<close> are the two variables after the last word.
\<close>

fun run :: "int \<Rightarrow> int \<Rightarrow> int list \<Rightarrow> (int \<times> int) list" where
  "run c p [] = []"
| "run c p (w # ws) =
     (let c' = (if p \<noteq> - 1 \<and> raw_counter w < p then c + 1 else c) in
      (if valid_word w then [(raw_counter w + 2 ^ 27 * c', w)] else []) @
      run c' (raw_counter w) ws)"

fun count_after :: "int \<Rightarrow> int \<Rightarrow> int list \<Rightarrow> int" where
  "count_after c p [] = c"
| "count_after c p (w # ws) =
     count_after (if p \<noteq> - 1 \<and> raw_counter w < p then c + 1 else c) (raw_counter w) ws"

definition prev_after :: "int \<Rightarrow> int list \<Rightarrow> int" where
  "prev_after p ws = (if ws = [] then p else raw_counter (last ws))"

text \<open>
  The channel names of a 4-character pattern, from the first character (channel 4) to the
  last (channel 1), and the number of patterns whose character \<open>i\<close> is \<open>1\<close>.
\<close>

definition active_channels :: "string \<Rightarrow> string list" where
  "active_channels p =
     map snd (filter (\<lambda>x. p ! fst x = CHR ''1'')
       [(0, ''CH4''), (1, ''CH3''), (2, ''CH2''), (3, ''CH1'')])"

definition bit_count :: "nat \<Rightarrow> string list \<Rightarrow> nat" where
  "bit_count i ps = length (filter (\<lambda>p. p ! i = CHR ''1'') ps)"

section \<open>An encoder for the round trip\<close>

text \<open>
  The channel pattern as the 4-character bit string of the decoder's description: bit 3
  (channel 4) first, bit 0 (channel 1) last.
\<close>

definition bit_string :: "int \<Rightarrow> string" where
  "bit_string p = map (\<lambda>k. if (p div k) mod 2 = 1 then CHR ''1'' else CHR ''0'') [8, 4, 2, 1]"

text \<open>
  Modelled from the spec: the repository has no encoder, so the one the round-trip
  property speaks of is written here after the word layout of the decoder's description
  (section 4.1). A pair \<open>(tick, pattern)\<close> becomes one valid word: the tick count in native
  ticks (\<open>tick div 2\<close>) reduced to the 27-bit counter in the high bits, the flag bit clear
  and the 4-bit pattern in the low bits. The rollover count is not part of a word; the
  layout carries it by words whose flag bit is set, which the decoder uses for rollover
  tracking only. For every counter period passed since the previous pair (since the start,
  for the first pair) the encoder puts one pair of flagged filler words before the valid
  word, the first with the largest raw value and the second with raw value 0, so that the
  decoder counts exactly one rollover per filler pair. The argument \<open>a\<close> of \<open>encode_words\<close>
  is the native tick count of the previous pair. The words follow each other in order,
  four bytes each, least significant byte first, which is the layout the decoder reads.
\<close>

definition pair_word :: "int \<times> int \<Rightarrow> int" where
  "pair_word x = 32 * ((fst x div 2) mod 2 ^ 27) + snd x"

definition filler_words :: "int list" where
  "filler_words = [32 * (2 ^ 27 - 1) + 16, 16]"

fun encode_words :: "int \<Rightarrow> (int \<times> int) list \<Rightarrow> int list" where
  "encode_words a [] = []"
| "encode_words a (x # xs) =
     concat (replicate (nat ((fst x div 2) div 2 ^ 27 - a div 2 ^ 27)) filler_words)
     @ pair_word x # encode_words (fst x div 2) xs"

definition word_bytes :: "int \<Rightarrow> byte list" where
  "word_bytes w =
     [word_of_int w, word_of_int (w div 256), word_of_int (w div 65536),
      word_of_int (w div 16777216)]"

definition encode_pairs :: "(int \<times> int) list \<Rightarrow> byte list" where
  "encode_pairs ps = concat (map word_bytes (encode_words 0 ps))"

section \<open>Word extraction in closed form\<close>

lemma digit_value_hex_digit: "n < 16 \<Longrightarrow> digit_value (hex_digit n) = Some (int n)"
proof -
  assume "n < 16"
  then have "n \<in> set [0 ..< 16]" by simp
  moreover have "list_all (\<lambda>k. digit_value (hex_digit k) = Some (int k)) [0 ..< 16]"
    by code_simp
  ultimately show ?thesis
    unfolding list_all_iff by blast
qed

lemma hex_Nil: "hex [] = []"
  by (simp add: hex_def)

lemma hex_Cons: "hex (b # bs) = hex_digit (unat b div 16) # hex_digit (unat b mod 16) # hex bs"
  by (simp add: hex_def)

lemma length_hex: "length (hex bs) = 2 * length bs"
  by (induction bs) (simp_all add: hex_Nil hex_Cons)

lemma unat_byte_div16: "unat (b :: byte) div 16 < 16"
proof -
  have "unat b < 256" using unsigned_less [of b, where ?'a = nat] by simp
  then show ?thesis by simp
qed

lemma parse16_hex: "parse16 acc (hex ys) = Inr (foldl (\<lambda>a b. 256 * a + uint b) acc ys)"
proof (induction ys arbitrary: acc)
  case Nil
  then show ?case by (simp add: hex_Nil)
next
  case (Cons b ys)
  have "16 * int (unat b div 16) + int (unat b mod 16) = int (unat b)"
    by (simp add: zdiv_int zmod_int)
  then have eq: "256 * acc + 16 * int (unat b div 16) + int (unat b mod 16) = 256 * acc + uint b"
    by simp
  show ?case
    by (simp add: hex_Cons digit_value_hex_digit unat_byte_div16 Cons.IH eq)
qed

lemma int_base16_hex: "ys \<noteq> [] \<Longrightarrow> int_base16 (hex ys) = Inr (be_uint ys)"
proof -
  assume "ys \<noteq> []"
  then have "hex ys \<noteq> []"
    by (cases ys) (simp_all add: hex_Cons)
  then show ?thesis
    by (simp add: int_base16_def be_uint_def parse16_hex)
qed


lemma traverse_map: "traverse f (map g xs) = traverse (\<lambda>x. f (g x)) xs"
  by (induction xs) (simp_all split: sum.splits)

lemma traverse_Inr: "(\<And>x. x \<in> set xs \<Longrightarrow> f x = Inr (g x)) \<Longrightarrow> traverse f xs = Inr (map g xs)"
  by (induction xs) simp_all

lemma range8_0: "range8 0 = []"
  by (simp add: range8_def)

lemma range8_short: "0 < n \<Longrightarrow> n \<le> 8 \<Longrightarrow> range8 n = [0]"
proof -
  assume "0 < n" "n \<le> 8"
  then have "(n + 7) div 8 = 1" by arith
  then show ?thesis by (simp add: range8_def)
qed

lemma range8_step: "range8 (8 + n) = 0 # map (\<lambda>i. 8 + i) (range8 n)"
proof -
  have "(8 + n + 7) div 8 = Suc ((n + 7) div 8)" by arith
  then show ?thesis
    by (simp add: range8_def upt_conv_Cons map_Suc_upt [symmetric] del: upt_Suc)
qed

lemma slices_Nil: "slices [] = []"
  by (simp add: slices_def range8_0)

lemma slices_short: "s \<noteq> [] \<Longrightarrow> length s \<le> 8 \<Longrightarrow> slices s = [s]"
  by (simp add: slices_def range8_short)

lemma slices_step: "length a = 8 \<Longrightarrow> slices (a @ s) = a # slices s"
  by (simp add: slices_def range8_step comp_def)

lemma slices_hex: "slices (hex xs) = map hex (groups xs)"
proof (induction xs rule: groups.induct)
  case (1 a b c d e rest)
  have "hex (a # b # c # d # e # rest) = hex [a, b, c, d] @ hex (e # rest)"
    by (simp add: hex_Cons hex_Nil)
  moreover have "length (hex [a, b, c, d]) = 8"
    by (simp add: length_hex)
  ultimately show ?case
    using 1 by (simp add: slices_step del: append.simps)
qed (simp_all add: slices_Nil slices_short length_hex hex_Cons hex_Nil)

lemma groups_nonempty: "g \<in> set (groups xs) \<Longrightarrow> g \<noteq> []"
  by (induction xs rule: groups.induct) auto

lemma traverse_slices:
  "traverse (\<lambda>i. int_base16 (take 8 (drop i (hex xs)))) (range8 (length (hex xs)))
     = Inr (map be_uint (groups xs))"
proof -
  have "traverse (\<lambda>i. int_base16 (take 8 (drop i (hex xs)))) (range8 (length (hex xs)))
      = traverse int_base16 (slices (hex xs))"
    by (simp add: slices_def traverse_map)
  also have "\<dots> = traverse (\<lambda>g. int_base16 (hex g)) (groups xs)"
    by (simp add: slices_hex traverse_map)
  also have "\<dots> = Inr (map be_uint (groups xs))"
    by (rule traverse_Inr) (simp add: int_base16_hex groups_nonempty)
  finally show ?thesis .
qed

lemma groups_four: "groups (a # b # c # d # zs) = [a, b, c, d] # groups zs"
  by (cases zs) simp_all

lemma groups_append:
  "length ys mod 4 = 0 \<Longrightarrow> groups (ys @ zs) = groups ys @ groups zs"
proof (induction ys rule: groups.induct)
  case (1 a b c d e rest)
  from "1.prems" have "length (e # rest) mod 4 = 0"
    by simp arith
  with "1.IH" show ?case by simp
qed (simp_all add: groups_four)

lemma be_uint_rev: "be_uint (rev zs) = le_uint zs"
  by (induction zs) (simp_all add: be_uint_def)

lemma le_words_rev:
  "length xs mod 4 = 0 \<Longrightarrow> rev (map be_uint (groups (rev xs))) = le_words xs"
proof (induction xs rule: le_words.induct)
  case (1 a b c d rest)
  then have "length (rev rest) mod 4 = 0" by simp
  then have "groups (rev rest @ [d, c, b, a]) = groups (rev rest) @ [[d, c, b, a]]"
    by (simp add: groups_append)
  moreover have "be_uint [d, c, b, a] = le_uint [a, b, c, d]"
    using be_uint_rev [of "[a, b, c, d]"] by simp
  ultimately show ?case using 1 by simp
qed simp_all

lemma groups_short: "xs \<noteq> [] \<Longrightarrow> length xs < 4 \<Longrightarrow> groups xs = [xs]"
  by (induction xs rule: groups.induct) simp_all

lemma ts_word_list_eq: "ts_word_list bs = Inr (words_of bs)"
proof -
  define r where "r = length bs mod 4"
  have al: "length (drop r bs) mod 4 = 0"
    unfolding r_def by (simp add: mod_eq_0_iff_dvd)
  have "rev bs = rev (drop r bs) @ rev (take r bs)"
    by (metis append_take_drop_id rev_append)
  then have "groups (rev bs) = groups (rev (drop r bs)) @ groups (rev (take r bs))"
    using al by (simp add: groups_append)
  moreover have "groups (rev (take r bs)) = (if r = 0 then [] else [rev (take r bs)])"
  proof (cases "r = 0")
    case True
    then show ?thesis by simp
  next
    case False
    have "r \<le> length bs" unfolding r_def by (rule mod_less_eq_dividend)
    moreover have "r < 4" unfolding r_def by simp
    ultimately have "rev (take r bs) \<noteq> []" "length (rev (take r bs)) < 4"
      using False by auto
    then show ?thesis using False by (simp add: groups_short)
  qed
  ultimately have "rev (map be_uint (groups (rev bs))) = words_of bs"
    using le_words_rev [OF al] by (simp add: words_of_def r_def [symmetric] be_uint_rev)
  then show ?thesis
    by (simp add: ts_word_list_def traverse_slices)
qed

section \<open>The loop in closed form\<close>

lemma trailer_flag: "(w AND 0x1F) AND 0x10 = w AND (0x10 :: int)"
  by (simp add: and.assoc)

lemma trailer_pattern: "(w AND 0x1F) AND 0xF = w AND (0xF :: int)"
  by (simp add: and.assoc)

lemma periode_duration_eq: "periode_duration = 2 ^ 27"
  by (simp add: periode_duration_def)

lemma decode_word_eq:
  "decode_word legacy st w =
     st\<lparr>ts_list := ts_list st @ map fst (run (periode_count st) (prev_ts st) [w]),
        event_channel_list := event_channel_list st @
           map (\<lambda>x. render legacy (snd x)) (run (periode_count st) (prev_ts st) [w]),
        periode_count := count_after (periode_count st) (prev_ts st) [w],
        prev_ts := prev_after (prev_ts st) [w]\<rparr>"
  by (simp add: decode_word_def Let_def trailer_flag trailer_pattern periode_duration_eq
      raw_counter_def valid_word_def render_def prev_after_def)

lemma run_append:
  "run c p (ws1 @ ws2) = run c p ws1 @ run (count_after c p ws1) (prev_after p ws1) ws2"
  by (induction ws1 arbitrary: c p) (simp_all add: prev_after_def Let_def)

lemma count_after_append:
  "count_after c p (ws1 @ ws2) = count_after (count_after c p ws1) (prev_after p ws1) ws2"
  by (induction ws1 arbitrary: c p) (simp_all add: prev_after_def)

lemma prev_after_append:
  "prev_after p (ws1 @ ws2) = prev_after (prev_after p ws1) ws2"
  by (simp add: prev_after_def)

lemma foldl_decode_word:
  "foldl (decode_word legacy) st ws =
     st\<lparr>ts_list := ts_list st @ map fst (run (periode_count st) (prev_ts st) ws),
        event_channel_list := event_channel_list st @
           map (\<lambda>x. render legacy (snd x)) (run (periode_count st) (prev_ts st) ws),
        periode_count := count_after (periode_count st) (prev_ts st) ws,
        prev_ts := prev_after (prev_ts st) ws\<rparr>"
proof (induction ws arbitrary: st)
  case Nil
  then show ?case by (simp add: prev_after_def)
next
  case (Cons w ws)
  have "foldl (decode_word legacy) st (w # ws) = foldl (decode_word legacy) (decode_word legacy st w) ws"
    by simp
  also have "\<dots> = st\<lparr>ts_list := ts_list st @ map fst (run (periode_count st) (prev_ts st) ([w] @ ws)),
        event_channel_list := event_channel_list st @
           map (\<lambda>x. render legacy (snd x)) (run (periode_count st) (prev_ts st) ([w] @ ws)),
        periode_count := count_after (periode_count st) (prev_ts st) ([w] @ ws),
        prev_ts := prev_after (prev_ts st) ([w] @ ws)\<rparr>"
    unfolding Cons.IH run_append count_after_append prev_after_append
    by (simp add: decode_word_eq)
  finally show ?case by simp
qed

lemma loop_from_init:
  "foldl (decode_word legacy) decoder_init ws =
     \<lparr>ts_list = map fst (run 0 (- 1) ws),
      event_channel_list = map (\<lambda>x. render legacy (snd x)) (run 0 (- 1) ws),
      periode_count = count_after 0 (- 1) ws,
      prev_ts = prev_after (- 1) ws\<rparr>"
  by (simp add: foldl_decode_word decoder_init_def)

lemma map_snd_run: "map snd (run c p ws) = filter valid_word ws"
  by (induction ws arbitrary: c p) (simp_all add: Let_def)

section \<open>Bounds and decomposition of the words\<close>

lemma le_uint_bounds: "0 \<le> le_uint bs \<and> le_uint bs < 256 ^ length bs"
proof (induction bs)
  case Nil
  then show ?case by simp
next
  case (Cons b bs)
  have b: "0 \<le> uint b" "uint b < 256"
    using uint_lt2p [of b] by simp_all
  from Cons have "le_uint bs + 1 \<le> 256 ^ length bs" by simp
  then have "256 * (le_uint bs + 1) \<le> 256 * 256 ^ length bs"
    by simp
  with b Cons show ?case by simp
qed

lemma le_words_bound: "w \<in> set (le_words xs) \<Longrightarrow> 0 \<le> w \<and> w < 2 ^ 32"
proof (induction xs rule: le_words.induct)
  case (1 a b c d rest)
  have "0 \<le> le_uint [a, b, c, d] \<and> le_uint [a, b, c, d] < 256 ^ length [a, b, c, d]"
    by (rule le_uint_bounds)
  then have "0 \<le> le_uint [a, b, c, d] \<and> le_uint [a, b, c, d] < 2 ^ 32"
    by simp
  with 1 show ?case by auto
qed simp_all

lemma words_of_bound: "w \<in> set (words_of bs) \<Longrightarrow> 0 \<le> w \<and> w < 2 ^ 32"
proof -
  assume w: "w \<in> set (words_of bs)"
  define r where "r = length bs mod 4"
  have "r < 4" unfolding r_def by simp
  have "0 \<le> le_uint (take r bs) \<and> le_uint (take r bs) < 256 ^ length (take r bs)"
    by (rule le_uint_bounds)
  moreover have "(256::int) ^ length (take r bs) \<le> 256 ^ 4"
    using \<open>r < 4\<close> by (intro power_increasing) simp_all
  ultimately have "0 \<le> le_uint (take r bs) \<and> le_uint (take r bs) < 2 ^ 32"
    by simp
  with w le_words_bound [of w "drop r bs"] show ?thesis
    by (auto simp: words_of_def r_def [symmetric] split: if_splits)
qed

lemma raw_counter_bound:
  "0 \<le> w \<Longrightarrow> w < 2 ^ 32 \<Longrightarrow> 0 \<le> raw_counter w \<and> raw_counter w < 2 ^ 27"
proof -
  assume "0 \<le> w" "w < 2 ^ 32"
  then have "w \<le> 4294967295" by simp
  then have "w div 32 \<le> 4294967295 div 32" by (rule zdiv_mono1) simp
  moreover have "0 \<le> w div 32" using \<open>0 \<le> w\<close> by (simp add: pos_imp_zdiv_nonneg_iff)
  ultimately have "0 \<le> w div 32 \<and> w div 32 < 134217728" by simp
  then show ?thesis by (simp add: raw_counter_def drop_bit_eq_div)
qed

lemma length_le_words: "length (le_words xs) = length xs div 4"
  by (induction xs rule: le_words.induct) simp_all

lemma length_words_of: "length (words_of bs) = (length bs + 3) div 4"
proof -
  define q r where "q = length bs div 4" and "r = length bs mod 4"
  have n: "length bs = 4 * q + r" and r: "r < 4"
    unfolding q_def r_def by simp_all
  have "(length bs - r) div 4 = q"
    unfolding n by simp
  moreover have "(length bs + 3) div 4 = q + (if r = 0 then 0 else 1)"
    unfolding n using r by (cases "r = 0") simp_all
  ultimately show ?thesis
    by (simp add: words_of_def Let_def length_le_words r_def [symmetric])
qed

lemma le_uint_replicate_zero: "le_uint (replicate k 0) = 0"
  by (induction k) simp_all

lemma le_uint_zeros: "le_uint (xs @ replicate k 0) = le_uint xs"
  by (induction xs) (simp_all add: le_uint_replicate_zero)

lemma le_words_first: "length xs = 4 \<Longrightarrow> le_words (xs @ ys) = le_uint xs # le_words ys"
proof -
  assume "length xs = 4"
  then have "length xs = Suc (Suc (Suc (Suc 0)))" by simp
  then obtain a b c d where "xs = [a, b, c, d]"
    by (auto simp: length_Suc_conv)
  then show ?thesis by simp
qed


lemma le_words_append:
  "length xs mod 4 = 0 \<Longrightarrow> le_words (xs @ ys) = le_words xs @ le_words ys"
proof (induction xs rule: le_words.induct)
  case (1 a b c d rest)
  from "1.prems" have "length rest mod 4 = 0"
    by simp
  with "1.IH" show ?case by simp
qed simp_all

lemma words_of_aligned: "length bs mod 4 = 0 \<Longrightarrow> words_of bs = le_words bs"
  by (simp add: words_of_def)

lemma words_of_append:
  assumes "length ys mod 4 = 0"
  shows "words_of (xs @ ys) = words_of xs @ le_words ys"
proof -
  define r where "r = length xs mod 4"
  have r: "r \<le> length xs"
    unfolding r_def by (rule mod_less_eq_dividend)
  have "(length xs + length ys) mod 4 = (length xs mod 4 + length ys mod 4) mod 4"
    by (rule mod_add_eq [symmetric])
  then have m: "length (xs @ ys) mod 4 = r"
    using assms by (simp add: r_def)
  have al: "length (drop r xs) mod 4 = 0"
    unfolding r_def by (simp add: mod_eq_0_iff_dvd)
  have d: "drop r (xs @ ys) = drop r xs @ ys"
    using r by simp
  have t: "take r (xs @ ys) = take r xs"
    using r by simp
  show ?thesis
    unfolding words_of_def m Let_def r_def [symmetric] d t
    using al by (simp add: le_words_append)
qed

section \<open>Order and range of the absolute tick counts\<close>

lemma run_lower:
  "\<forall>w \<in> set ws. 0 \<le> raw_counter w \<and> raw_counter w < 2 ^ 27 \<Longrightarrow> p < 2 ^ 27 \<Longrightarrow>
   x \<in> set (run c p ws) \<Longrightarrow> p + 2 ^ 27 * c \<le> fst x"
proof (induction ws arbitrary: c p)
  case Nil
  then show ?case by simp
next
  case (Cons w ws)
  define c' where "c' = (if p \<noteq> - 1 \<and> raw_counter w < p then c + 1 else c)"
  have w: "0 \<le> raw_counter w" "raw_counter w < 2 ^ 27"
    using Cons.prems(1) by simp_all
  have step: "p + 2 ^ 27 * c \<le> raw_counter w + 2 ^ 27 * c'"
    using w Cons.prems(2) by (auto simp: c'_def)
  from Cons.prems(3) consider "x = (raw_counter w + 2 ^ 27 * c', w)"
    | "x \<in> set (run c' (raw_counter w) ws)"
    by (auto simp: c'_def Let_def split: if_splits)
  then show ?case
  proof cases
    case 1
    then show ?thesis using step by simp
  next
    case 2
    have "raw_counter w + 2 ^ 27 * c' \<le> fst x"
      using Cons.prems(1) w(2) 2 by (intro Cons.IH) simp_all
    then show ?thesis using step by linarith
  qed
qed

lemma run_sorted:
  "\<forall>w \<in> set ws. 0 \<le> raw_counter w \<and> raw_counter w < 2 ^ 27 \<Longrightarrow>
   sorted (map fst (run c p ws))"
proof (induction ws arbitrary: c p)
  case Nil
  then show ?case by simp
next
  case (Cons w ws)
  define c' where "c' = (if p \<noteq> - 1 \<and> raw_counter w < p then c + 1 else c)"
  have w: "raw_counter w < 2 ^ 27"
    using Cons.prems by simp
  have rest: "sorted (map fst (run c' (raw_counter w) ws))"
    using Cons.prems by (intro Cons.IH) simp
  have "\<forall>x \<in> set (run c' (raw_counter w) ws). raw_counter w + 2 ^ 27 * c' \<le> fst x"
    using run_lower [of ws "raw_counter w" _ c'] Cons.prems w by simp
  with rest show ?case
    by (simp add: c'_def [symmetric] Let_def)
qed

lemma run_upper:
  "\<forall>w \<in> set ws. 0 \<le> raw_counter w \<and> raw_counter w < 2 ^ 27 \<Longrightarrow>
   x \<in> set (run c p ws) \<Longrightarrow> fst x < 2 ^ 27 * (c + int (length ws) + 1)"
proof (induction ws arbitrary: c p)
  case Nil
  then show ?case by simp
next
  case (Cons w ws)
  define c' where "c' = (if p \<noteq> - 1 \<and> raw_counter w < p then c + 1 else c)"
  have w: "raw_counter w < 2 ^ 27"
    using Cons.prems(1) by simp
  have c': "c' \<le> c + 1"
    by (simp add: c'_def)
  from Cons.prems(2) consider "x = (raw_counter w + 2 ^ 27 * c', w)"
    | "x \<in> set (run c' (raw_counter w) ws)"
    by (auto simp: c'_def Let_def split: if_splits)
  then show ?case
  proof cases
    case 1
    then show ?thesis using w c' by simp
  next
    case 2
    have "fst x < 2 ^ 27 * (c' + int (length ws) + 1)"
      using Cons.prems(1) 2 by (intro Cons.IH) simp_all
    then show ?thesis using c' by simp
  qed
qed

lemma run_upper_init:
  assumes "\<forall>w \<in> set ws. 0 \<le> raw_counter w \<and> raw_counter w < 2 ^ 27"
    and "x \<in> set (run c (- 1) ws)"
  shows "fst x < 2 ^ 27 * (c + int (length ws))"
proof (cases ws)
  case Nil
  with assms show ?thesis by simp
next
  case (Cons w ws')
  have w: "raw_counter w < 2 ^ 27"
    using assms(1) Cons by simp
  from assms(2) Cons consider "x = (raw_counter w + 2 ^ 27 * c, w)"
    | "x \<in> set (run c (raw_counter w) ws')"
    by (auto split: if_splits)
  then show ?thesis
  proof cases
    case 1
    then show ?thesis using w Cons by simp
  next
    case 2
    have "fst x < 2 ^ 27 * (c + int (length ws') + 1)"
      using assms(1) Cons 2 by (intro run_upper) simp_all
    then show ?thesis using Cons by simp
  qed
qed

lemma run_nonneg:
  "\<forall>w \<in> set ws. 0 \<le> raw_counter w \<and> raw_counter w < 2 ^ 27 \<Longrightarrow> 0 \<le> c \<Longrightarrow>
   x \<in> set (run c p ws) \<Longrightarrow> 0 \<le> fst x"
proof (induction ws arbitrary: c p)
  case Nil
  then show ?case by simp
next
  case (Cons w ws)
  define c' where "c' = (if p \<noteq> - 1 \<and> raw_counter w < p then c + 1 else c)"
  have c': "0 \<le> c'" using Cons.prems(2) by (simp add: c'_def)
  from Cons.prems(3) consider "x = (raw_counter w + 2 ^ 27 * c', w)"
    | "x \<in> set (run c' (raw_counter w) ws)"
    by (auto simp: c'_def Let_def split: if_splits)
  then show ?case
  proof cases
    case 1
    then show ?thesis using c' Cons.prems(1) by simp
  next
    case 2
    show ?thesis using Cons.prems(1) c' 2 by (intro Cons.IH [of c' "raw_counter w"]) simp_all
  qed
qed

lemma words_of_raws:
  "\<forall>w \<in> set (words_of bs). 0 \<le> raw_counter w \<and> raw_counter w < 2 ^ 27"
  using words_of_bound raw_counter_bound by blast

section \<open>The result of the whole function\<close>

lemma sint_timestamp:
  "0 \<le> t \<Longrightarrow> t < 2 ^ 62 \<Longrightarrow> sint ((word_of_int t :: int64) * 2) = 2 * t"
proof -
  assume t: "0 \<le> t" "t < 2 ^ 62"
  have "(word_of_int t :: int64) * 2 = word_of_int (2 * t)"
    by (simp add: mult.commute)
  then have "sint ((word_of_int t :: int64) * 2) = signed_take_bit 63 (2 * t)"
    by (simp only: sint_sbintrunc') simp
  also have "\<dots> = 2 * t"
    using t by (intro signed_take_bit_int_eq_self) simp_all
  finally show ?thesis .
qed

lemma read_timestamps_unfold:
  "read_timestamps bs legacy =
     (if list_all (\<lambda>x. - (2 ^ 63) \<le> fst x \<and> fst x < 2 ^ 63) (run 0 (- 1) (words_of bs))
      then Inr (map (\<lambda>x. word_of_int (fst x) * 2) (run 0 (- 1) (words_of bs)),
                map (\<lambda>x. render legacy (snd x)) (run 0 (- 1) (words_of bs)))
      else Inl OverflowError)"
  by (simp add: read_timestamps_def ts_word_list_eq loop_from_init int64_array_def
      list_all_iff comp_def Let_def)

lemma run_words_range:
  assumes "length bs \<le> 2 ^ 37" and "x \<in> set (run 0 (- 1) (words_of bs))"
  shows "0 \<le> fst x \<and> fst x < 2 ^ 62"
proof -
  have "(length bs + 3) div 4 \<le> (2 ^ 37 + 3) div 4"
    using assms(1) by (intro div_le_mono) simp
  then have "length (words_of bs) \<le> 2 ^ 35"
    by (simp add: length_words_of)
  then have "int (length (words_of bs)) \<le> 2 ^ 35"
    by (metis of_nat_le_iff of_nat_numeral of_nat_power)
  then have "(2 ^ 27 :: int) * int (length (words_of bs)) \<le> 2 ^ 27 * 2 ^ 35"
    by (intro mult_left_mono) simp_all
  moreover have "fst x < 2 ^ 27 * (0 + int (length (words_of bs)))"
    using words_of_raws assms(2) by (rule run_upper_init)
  moreover have "0 \<le> fst x"
    using words_of_raws _ assms(2) by (rule run_nonneg) simp
  ultimately show ?thesis by simp
qed

lemma read_timestamps_bounded:
  assumes "length bs \<le> 2 ^ 37"
  shows "read_timestamps bs legacy =
     Inr (map (\<lambda>x. word_of_int (fst x) * 2) (run 0 (- 1) (words_of bs)),
          map (\<lambda>x. render legacy (snd x)) (run 0 (- 1) (words_of bs)))"
proof -
  have "\<forall>x \<in> set (run 0 (- 1) (words_of bs)). - (2 ^ 63) \<le> fst x \<and> fst x < 2 ^ 63"
  proof
    fix x assume "x \<in> set (run 0 (- 1) (words_of bs))"
    with assms have "0 \<le> fst x \<and> fst x < 2 ^ 62" by (rule run_words_range)
    then show "- (2 ^ 63) \<le> fst x \<and> fst x < 2 ^ 63" by simp
  qed
  then show ?thesis
    by (simp add: read_timestamps_unfold list_all_iff)
qed

lemma sint_timestamps_bounded:
  assumes "length bs \<le> 2 ^ 37"
  shows "map sint (map (\<lambda>x. (word_of_int (fst x) :: int64) * 2) (run 0 (- 1) (words_of bs)))
     = map (\<lambda>x. 2 * fst x) (run 0 (- 1) (words_of bs))"
proof -
  have "\<forall>x \<in> set (run 0 (- 1) (words_of bs)).
          sint ((word_of_int (fst x) :: int64) * 2) = 2 * fst x"
    using run_words_range [OF assms] sint_timestamp by blast
  then show ?thesis by simp
qed

lemma returned_Inr: "returned (Inr x)"
  by (simp add: returned_def)

lemma timestamps_Inr: "timestamps (Inr (ts, ch)) = map sint ts"
  by (simp add: timestamps_def)

lemma channels_Inr: "channels (Inr (ts, ch)) = ch"
  by (simp add: channels_def)


lemma timestamps_bounded:
  assumes "length bs \<le> 2 ^ 37"
  shows "timestamps (read_timestamps bs legacy) = map (\<lambda>x. 2 * fst x) (run 0 (- 1) (words_of bs))"
  unfolding read_timestamps_bounded [OF assms] timestamps_Inr
  by (rule sint_timestamps_bounded [OF assms])

lemma returned_bounded: "length bs \<le> 2 ^ 37 \<Longrightarrow> returned (read_timestamps bs legacy)"
  by (simp add: read_timestamps_bounded returned_Inr)



lemma timestamps_eval:
  assumes "words_of bs = ws" and "run 0 (- 1) ws = xs" and "length bs \<le> 2 ^ 37"
  shows "timestamps (read_timestamps bs legacy) = map (\<lambda>x. 2 * fst x) xs"
  unfolding timestamps_bounded [OF assms(3)] assms(1) assms(2) ..

section \<open>Streams without rollover\<close>

lemma count_after_mono: "c \<le> count_after c p ws"
proof (induction ws arbitrary: c p)
  case Nil
  then show ?case by simp
next
  case (Cons w ws)
  define c' where "c' = (if p \<noteq> - 1 \<and> raw_counter w < p then c + 1 else c)"
  have "c' \<le> count_after c' (raw_counter w) ws"
    by (rule Cons.IH)
  moreover have "c \<le> c'"
    by (simp add: c'_def)
  ultimately show ?case
    by (simp add: c'_def [symmetric])
qed

lemma run_no_rollover:
  "count_after c p ws = c \<Longrightarrow>
   run c p ws = map (\<lambda>w. (raw_counter w + 2 ^ 27 * c, w)) (filter valid_word ws)"
proof (induction ws arbitrary: p)
  case Nil
  then show ?case by simp
next
  case (Cons w ws)
  define c' where "c' = (if p \<noteq> - 1 \<and> raw_counter w < p then c + 1 else c)"
  have "c' \<le> count_after c' (raw_counter w) ws" by (rule count_after_mono)
  moreover have "count_after c' (raw_counter w) ws = c"
    using Cons.prems by (simp add: c'_def)
  moreover have "c \<le> c'" by (simp add: c'_def)
  ultimately have c': "c' = c" by simp
  then have "run c (raw_counter w) ws
      = map (\<lambda>w. (raw_counter w + 2 ^ 27 * c, w)) (filter valid_word ws)"
    using \<open>count_after c' (raw_counter w) ws = c\<close> by (intro Cons.IH) simp
  then show ?case
    using c' by (simp add: c'_def [symmetric] Let_def)
qed

lemma count_after_sorted:
  "sorted (map raw_counter ws) \<Longrightarrow> ws = [] \<or> p \<le> raw_counter (hd ws) \<Longrightarrow>
   count_after c p ws = c"
proof (induction ws arbitrary: p)
  case Nil
  then show ?case by simp
next
  case (Cons w ws)
  have first: "\<not> raw_counter w < p"
    using Cons.prems(2) by simp
  have "sorted (map raw_counter ws)"
    using Cons.prems(1) by simp
  moreover have "ws = [] \<or> raw_counter w \<le> raw_counter (hd ws)"
    using Cons.prems(1) by (cases ws) simp_all
  ultimately have "count_after c (raw_counter w) ws = c"
    by (rule Cons.IH)
  then show ?case
    using first by simp
qed

text \<open>
  C1. When no word of a stream has a raw counter value below that of the word before it
  (the raw values are non-decreasing, so the stream has no rollover), the call returns,
  and its timestamps are the raw counter values of the valid words (flag bit clear)
  multiplied by 2, in the order of the words; the channel entries are the patterns of the
  same words, and the rollover counter of the loop is still zero after the last word.
\<close>

theorem no_rollover_timestamps:
  assumes "ts_word_list bs = Inr ws"
    and "sorted (map raw_counter ws)"
  shows "returned (read_timestamps bs legacy)
           \<and> timestamps (read_timestamps bs legacy)
               = map (\<lambda>w. raw_counter w * 2) (filter valid_word ws)
           \<and> channels (read_timestamps bs legacy) = map (render legacy) (filter valid_word ws)
           \<and> periode_count (foldl (decode_word legacy) decoder_init ws) = 0"
proof -
  have ws: "ws = words_of bs"
    using assms(1) by (simp add: ts_word_list_eq)
  have raws: "\<forall>w \<in> set ws. 0 \<le> raw_counter w \<and> raw_counter w < 2 ^ 27"
    unfolding ws by (rule words_of_raws)
  have "ws = [] \<or> - 1 \<le> raw_counter (hd ws)"
  proof (cases ws)
    case Nil
    then show ?thesis by simp
  next
    case (Cons w rest)
    then have "0 \<le> raw_counter w"
      using raws by simp
    then show ?thesis
      using Cons by simp
  qed
  with assms(2) have count: "count_after 0 (- 1) ws = 0"
    by (rule count_after_sorted)
  then have run: "run 0 (- 1) ws = map (\<lambda>w. (raw_counter w, w)) (filter valid_word ws)"
    using run_no_rollover [of 0 "- 1" ws] by simp
  have range: "\<forall>x \<in> set (run 0 (- 1) ws). 0 \<le> fst x \<and> fst x < 2 ^ 62"
  proof
    fix x assume "x \<in> set (run 0 (- 1) ws)"
    then obtain w where "w \<in> set ws" "fst x = raw_counter w"
      unfolding run by auto
    with raws have "0 \<le> fst x \<and> fst x < 2 ^ 27" by simp
    then show "0 \<le> fst x \<and> fst x < 2 ^ 62" by simp
  qed
  then have "\<forall>x \<in> set (run 0 (- 1) ws). - (2 ^ 63) \<le> fst x \<and> fst x < 2 ^ 63"
    by fastforce
  then have res: "read_timestamps bs legacy =
     Inr (map (\<lambda>x. word_of_int (fst x) * 2) (run 0 (- 1) ws),
          map (\<lambda>x. render legacy (snd x)) (run 0 (- 1) ws))"
    by (simp add: read_timestamps_unfold list_all_iff ws)
  have "\<forall>x \<in> set (run 0 (- 1) ws). sint ((word_of_int (fst x) :: int64) * 2) = 2 * fst x"
    using range sint_timestamp by blast
  then have "map sint (map (\<lambda>x. (word_of_int (fst x) :: int64) * 2) (run 0 (- 1) ws))
      = map (\<lambda>x. 2 * fst x) (run 0 (- 1) ws)"
    by simp
  also have "\<dots> = map (\<lambda>w. raw_counter w * 2) (filter valid_word ws)"
    by (simp add: run comp_def)
  finally have "timestamps (read_timestamps bs legacy)
      = map (\<lambda>w. raw_counter w * 2) (filter valid_word ws)"
    unfolding res timestamps_Inr .
  moreover have "channels (read_timestamps bs legacy)
      = map (render legacy) (filter valid_word ws)"
    unfolding res channels_Inr by (simp add: run comp_def)
  moreover have "periode_count (foldl (decode_word legacy) decoder_init ws) = 0"
    unfolding loop_from_init using count by simp
  moreover have "returned (read_timestamps bs legacy)"
    unfolding res by (rule returned_Inr)
  ultimately show ?thesis
    by (intro conjI)
qed

theorem no_rollover_timestamps_witness:
  "ts_word_list [0x20, 0, 0, 0, 0x23, 0, 0, 0, 0x71, 1, 0, 0, 0x63, 1, 0, 0]
     = Inr [32, 35, 369, 355]
   \<and> map raw_counter [32, 35, 369, 355] = [1, 1, 11, 11]
   \<and> sorted (map raw_counter [32, 35, 369, 355])
   \<and> returned (read_timestamps [0x20, 0, 0, 0, 0x23, 0, 0, 0, 0x71, 1, 0, 0, 0x63, 1, 0, 0] True)
   \<and> timestamps (read_timestamps [0x20, 0, 0, 0, 0x23, 0, 0, 0, 0x71, 1, 0, 0, 0x63, 1, 0, 0] True)
       = [2, 2, 22]
   \<and> channels (read_timestamps [0x20, 0, 0, 0, 0x23, 0, 0, 0, 0x71, 1, 0, 0, 0x63, 1, 0, 0] True)
       = [ChStr ''0000'', ChStr ''0011'', ChStr ''0011'']"
proof -
  have h1: "ts_word_list [0x20, 0, 0, 0, 0x23, 0, 0, 0, 0x71, 1, 0, 0, 0x63, 1, 0, 0]
      = Inr [32, 35, 369, 355]"
    by (simp add: ts_word_list_eq words_of_def)
  have raws: "map raw_counter [32, 35, 369, 355] = [1, 1, 11, 11]"
    by (simp add: raw_counter_def drop_bit_eq_div)
  have h2: "sorted (map raw_counter [32, 35, 369, 355])"
    unfolding raws by simp
  have v: "filter valid_word [32, 35, 369, 355] = [32, 35, 355]"
    by (simp add: valid_word_def)
  have r: "render True 32 = ChStr ''0000''" "render True 35 = ChStr ''0011''"
    "render True 355 = ChStr ''0011''"
    by code_simp+
  have m: "map (\<lambda>w. raw_counter w * 2) [32, 35, 355] = [2, 2, 22]"
    by (simp add: raw_counter_def drop_bit_eq_div)
  have c: "map (render True) [32, 35, 355] = [ChStr ''0000'', ChStr ''0011'', ChStr ''0011'']"
    by (simp add: r)
  from no_rollover_timestamps [OF h1 h2, of True]
  have "returned (read_timestamps [0x20, 0, 0, 0, 0x23, 0, 0, 0, 0x71, 1, 0, 0, 0x63, 1, 0, 0] True)
     \<and> timestamps (read_timestamps [0x20, 0, 0, 0, 0x23, 0, 0, 0, 0x71, 1, 0, 0, 0x63, 1, 0, 0] True)
         = [2, 2, 22]
     \<and> channels (read_timestamps [0x20, 0, 0, 0, 0x23, 0, 0, 0, 0x71, 1, 0, 0, 0x63, 1, 0, 0] True)
         = [ChStr ''0000'', ChStr ''0011'', ChStr ''0011'']"
    unfolding v m c by (elim conjE) (intro conjI; assumption)
  with h1 raws h2 show ?thesis
    by (elim conjE) (intro conjI; assumption)
qed

section \<open>Aligned and unaligned streams\<close>

text \<open>
  C5. On a stream whose length is a multiple of 4, the word extraction (reverse the bytes,
  cut the hexadecimal text into 8-digit pieces, parse each, reverse the list) yields the
  consecutive 4-byte groups of the stream in their original order, each read as a
  little-endian unsigned 32-bit integer.
\<close>

theorem word_extraction_little_endian:
  assumes "length bs mod 4 = 0"
  shows "ts_word_list bs = Inr (le_words bs)"
proof -
  have "ts_word_list bs = Inr (words_of bs)"
    by (rule ts_word_list_eq)
  moreover have "words_of bs = le_words bs"
    using assms by (rule words_of_aligned)
  ultimately show ?thesis
    by simp
qed

theorem word_extraction_little_endian_witness:
  "length [0x20, 0, 0, 0, 0x51, 1, 0, 0 :: byte] mod 4 = 0
   \<and> ts_word_list [0x20, 0, 0, 0, 0x51, 1, 0, 0] = Inr [32, 337]"
  using word_extraction_little_endian [of "[0x20, 0, 0, 0, 0x51, 1, 0, 0]"] by simp

lemma words_of_padded:
  assumes "length bs mod 4 \<noteq> 0"
  shows "words_of (take (length bs mod 4) bs @ replicate (4 - length bs mod 4) 0
           @ drop (length bs mod 4) bs) = words_of bs"
proof -
  define r where "r = length bs mod 4"
  have r: "r < 4" "r \<le> length bs" "r \<noteq> 0"
    unfolding r_def using assms by (simp_all add: mod_less_eq_dividend)
  have al: "(length bs - r) mod 4 = 0"
    unfolding r_def by (simp add: mod_eq_0_iff_dvd)
  have len: "length (take r bs @ replicate (4 - r) 0) = 4"
    using r by simp
  have "length (take r bs @ replicate (4 - r) 0 @ drop r bs) = 4 + (length bs - r)"
    using r by simp
  then have "length (take r bs @ replicate (4 - r) 0 @ drop r bs) mod 4
      = (4 + (length bs - r)) mod 4"
    by (simp only:)
  also have "\<dots> = 0"
    using al by simp
  finally have "length (take r bs @ replicate (4 - r) 0 @ drop r bs) mod 4 = 0" .
  then have "words_of (take r bs @ replicate (4 - r) 0 @ drop r bs)
      = le_words ((take r bs @ replicate (4 - r) 0) @ drop r bs)"
    by (simp add: words_of_def)
  also have "\<dots> = le_uint (take r bs @ replicate (4 - r) 0) # le_words (drop r bs)"
    using len by (rule le_words_first)
  also have "\<dots> = words_of bs"
    using r by (simp add: words_of_def r_def [symmetric] le_uint_zeros)
  finally show ?thesis unfolding r_def .
qed

text \<open>
  C7, as the code has it. On a stream whose length is not a multiple of 4 nothing is cut
  off: the groups are aligned to the end of the stream, the first \<open>length mod 4\<close> bytes are
  parsed as one short word, and the result is the result on the stream whose first group
  is filled up to four bytes with zero bytes.
\<close>

theorem partial_word_zero_padded:
  assumes "length bs mod 4 \<noteq> 0"
  shows "read_timestamps bs legacy =
     read_timestamps (take (length bs mod 4) bs @ replicate (4 - length bs mod 4) 0
        @ drop (length bs mod 4) bs) legacy"
  unfolding read_timestamps_def ts_word_list_eq words_of_padded [OF assms] ..



theorem partial_word_zero_padded_witness:
  "length [0xA0, 0, 0, 0, 0x20 :: byte] mod 4 \<noteq> 0
   \<and> read_timestamps [0xA0, 0, 0, 0, 0x20] True
       = read_timestamps [0xA0, 0, 0, 0, 0, 0, 0, 0x20] True"
proof -
  have h: "length [0xA0, 0, 0, 0, 0x20 :: byte] mod 4 \<noteq> 0"
    by simp
  have m: "length [0xA0, 0, 0, 0, 0x20 :: byte] mod 4 = Suc 0"
    by simp
  have pad: "take (Suc 0) [0xA0, 0, 0, 0, 0x20 :: byte] @ replicate (4 - Suc 0) 0
      @ drop (Suc 0) [0xA0, 0, 0, 0, 0x20] = [0xA0, 0, 0, 0, 0, 0, 0, 0x20]"
    by (simp add: numeral_3_eq_3)
  show ?thesis
    using partial_word_zero_padded [OF h, of True] h unfolding m pad by (intro conjI)
qed


text \<open>
  The claim C7 as stated fails: the five-byte stream below decodes to two timestamps,
  its longest word-aligned prefix to one.
\<close>

theorem partial_word_counterexample:
  "timestamps (read_timestamps [0xA0, 0, 0, 0, 0x20] True) = [10, 33554432]
   \<and> take (4 * (length [0xA0, 0, 0, 0, 0x20 :: byte] div 4)) [0xA0, 0, 0, 0, 0x20 :: byte]
       = [0xA0, 0, 0, 0]
   \<and> timestamps (read_timestamps [0xA0, 0, 0, 0] True) = [10]
   \<and> read_timestamps [0xA0, 0, 0, 0, 0x20] True \<noteq> read_timestamps [0xA0, 0, 0, 0] True"
proof -
  have w5: "words_of [0xA0, 0, 0, 0, 0x20] = [160, 536870912]"
    by (simp add: words_of_def)
  have w4: "words_of [0xA0, 0, 0, 0] = [160]"
    by (simp add: words_of_def)
  have r5: "run 0 (- 1) [160, 536870912] = [(5, 160), (16777216, 536870912)]"
    by (simp add: raw_counter_def valid_word_def drop_bit_eq_div)
  have r4: "run 0 (- 1) [160] = [(5, 160)]"
    by (simp add: raw_counter_def valid_word_def drop_bit_eq_div)
  have t5: "read_timestamps [0xA0, 0, 0, 0, 0x20] True
      = Inr ([10, 33554432], [render True 160, render True 536870912])"
    unfolding read_timestamps_unfold w5 r5 by simp
  have t4: "read_timestamps [0xA0, 0, 0, 0] True = Inr ([10], [render True 160])"
    unfolding read_timestamps_unfold w4 r4 by simp
  have a1: "timestamps (read_timestamps [0xA0, 0, 0, 0, 0x20] True) = [10, 33554432]"
    unfolding t5 timestamps_Inr by simp
  have a2: "timestamps (read_timestamps [0xA0, 0, 0, 0] True) = [10]"
    unfolding t4 timestamps_Inr by simp
  have a3: "read_timestamps [0xA0, 0, 0, 0, 0x20] True \<noteq> read_timestamps [0xA0, 0, 0, 0] True"
    unfolding t5 t4 by simp
  have tk: "take (4 * (length [0xA0, 0, 0, 0, 0x20 :: byte] div 4)) [0xA0, 0, 0, 0, 0x20 :: byte]
       = [0xA0, 0, 0, 0]"
    by simp
  from a1 tk a2 a3 show ?thesis by (intro conjI)
qed

section \<open>Pairing of the two outputs\<close>

lemma read_timestamps_cases:
  "read_timestamps bs legacy = Inl OverflowError \<and> 2 ^ 37 < length bs
   \<or> read_timestamps bs legacy =
       Inr (map (\<lambda>x. word_of_int (fst x) * 2) (run 0 (- 1) (words_of bs)),
            map (\<lambda>x. render legacy (snd x)) (run 0 (- 1) (words_of bs)))"
proof (cases "length bs \<le> 2 ^ 37")
  case True
  then show ?thesis by (simp add: read_timestamps_bounded)
next
  case False
  then show ?thesis by (simp add: read_timestamps_unfold)
qed

text \<open>
  C10. Whenever the call returns, the two sequences have the same length, one entry per
  valid word: the i-th timestamp and the i-th channel entry come from the same valid word,
  the channel entry being the pattern of that word as a bit string (legacy) or as an
  integer (otherwise). The call fails to return only with \<open>OverflowError\<close>, on a stream of
  more than \<open>2 ^ 37\<close> bytes.
\<close>

theorem outputs_paired:
  assumes "ts_word_list bs = Inr ws"
  shows "read_timestamps bs legacy = Inl OverflowError \<and> 2 ^ 37 < length bs
     \<or> returned (read_timestamps bs legacy)
       \<and> length (timestamps (read_timestamps bs legacy)) = length (filter valid_word ws)
       \<and> length (channels (read_timestamps bs legacy)) = length (filter valid_word ws)
       \<and> channels (read_timestamps bs legacy) = map (render legacy) (filter valid_word ws)
       \<and> zip (timestamps (read_timestamps bs legacy)) (channels (read_timestamps bs legacy))
           = map (\<lambda>x. (sint ((word_of_int (fst x) :: int64) * 2), render legacy (snd x)))
               (run 0 (- 1) ws)"
proof -
  have ws: "ws = words_of bs"
    using assms by (simp add: ts_word_list_eq)
  have len: "length (run 0 (- 1) ws) = length (filter valid_word ws)"
    using arg_cong [OF map_snd_run [of 0 "- 1" ws], of length] by simp
  have ch: "map (\<lambda>x. render legacy (snd x)) (run 0 (- 1) ws)
      = map (render legacy) (filter valid_word ws)"
    using arg_cong [OF map_snd_run [of 0 "- 1" ws], of "map (render legacy)"] by (simp add: comp_def)
  from read_timestamps_cases [of bs legacy] show ?thesis
  proof
    assume "read_timestamps bs legacy = Inl OverflowError \<and> 2 ^ 37 < length bs"
    then show ?thesis by simp
  next
    assume res: "read_timestamps bs legacy =
       Inr (map (\<lambda>x. word_of_int (fst x) * 2) (run 0 (- 1) (words_of bs)),
            map (\<lambda>x. render legacy (snd x)) (run 0 (- 1) (words_of bs)))"
    have "returned (read_timestamps bs legacy)"
      unfolding res by (rule returned_Inr)
    moreover have "length (timestamps (read_timestamps bs legacy)) = length (filter valid_word ws)"
      unfolding res timestamps_Inr using len by (simp add: ws)
    moreover have "length (channels (read_timestamps bs legacy)) = length (filter valid_word ws)"
      unfolding res channels_Inr using len by (simp add: ws)
    moreover have "channels (read_timestamps bs legacy) = map (render legacy) (filter valid_word ws)"
      unfolding res channels_Inr using ch by (simp add: ws)
    moreover have "zip (timestamps (read_timestamps bs legacy)) (channels (read_timestamps bs legacy))
           = map (\<lambda>x. (sint ((word_of_int (fst x) :: int64) * 2), render legacy (snd x)))
               (run 0 (- 1) ws)"
      unfolding res channels_Inr timestamps_Inr by (simp add: ws zip_map_map zip_same_conv_map)
    ultimately show ?thesis by (intro disjI2 conjI)
  qed
qed


theorem outputs_paired_witness:
  "ts_word_list [0xA0, 0, 0, 0, 0x70, 0, 0, 0, 0xE3, 0, 0, 0] = Inr [160, 112, 227]
   \<and> returned (read_timestamps [0xA0, 0, 0, 0, 0x70, 0, 0, 0, 0xE3, 0, 0, 0] False)
   \<and> zip (timestamps (read_timestamps [0xA0, 0, 0, 0, 0x70, 0, 0, 0, 0xE3, 0, 0, 0] False))
          (channels (read_timestamps [0xA0, 0, 0, 0, 0x70, 0, 0, 0, 0xE3, 0, 0, 0] False))
       = [(10, ChInt 0), (268435470, ChInt 3)]"
proof -
  have h: "ts_word_list [0xA0, 0, 0, 0, 0x70, 0, 0, 0, 0xE3, 0, 0, 0] = Inr [160, 112, 227]"
    by (simp add: ts_word_list_eq words_of_def)
  have n: "\<not> (2 :: nat) ^ 37 < length [0xA0, 0, 0, 0, 0x70, 0, 0, 0, 0xE3, 0, 0, 0 :: byte]"
    by simp
  have r: "run 0 (- 1) [160, 112, 227] = [(5, 160), (134217735, 227)]"
    by (simp add: raw_counter_def valid_word_def drop_bit_eq_div)
  have m: "map (\<lambda>x. (sint ((word_of_int (fst x) :: int64) * 2), render False (snd x)))
      [(5, 160), (134217735, 227)] = [(10, ChInt 0), (268435470, ChInt 3)]"
    by (simp add: render_def)
  from outputs_paired [OF h, of False] n
  have "returned (read_timestamps [0xA0, 0, 0, 0, 0x70, 0, 0, 0, 0xE3, 0, 0, 0] False)
     \<and> zip (timestamps (read_timestamps [0xA0, 0, 0, 0, 0x70, 0, 0, 0, 0xE3, 0, 0, 0] False))
          (channels (read_timestamps [0xA0, 0, 0, 0, 0x70, 0, 0, 0, 0xE3, 0, 0, 0] False))
       = map (\<lambda>x. (sint ((word_of_int (fst x) :: int64) * 2), render False (snd x)))
               (run 0 (- 1) [160, 112, 227])"
    by (elim disjE conjE) (erule notE, assumption, intro conjI, assumption+)
  then show ?thesis
    unfolding r m using h by (elim conjE) (intro conjI; assumption)
qed

section \<open>Order of the timestamps\<close>

lemma sorted_doubled: "sorted (map fst xs) \<Longrightarrow> sorted (map (\<lambda>x. 2 * fst x) (xs :: (int \<times> 'a) list))"
  by (induction xs) auto

text \<open>
  C3, as the code has it. On a stream of at most \<open>2 ^ 37\<close> bytes the call returns and its
  timestamps are non-decreasing: every raw counter value of the words of the stream is
  below \<open>2 ^ 27\<close>, so each rollover adds more than the raw value lost, and no timestamp
  reaches \<open>2 ^ 63\<close>.
\<close>

theorem timestamps_nondecreasing:
  assumes "length bs \<le> 2 ^ 37"
  shows "returned (read_timestamps bs legacy)
     \<and> sorted (timestamps (read_timestamps bs legacy))
     \<and> ts_word_list bs = Inr (words_of bs)
     \<and> list_all (\<lambda>w. 0 \<le> raw_counter w \<and> raw_counter w < 2 ^ 27) (words_of bs)"
proof -
  have raws: "list_all (\<lambda>w. 0 \<le> raw_counter w \<and> raw_counter w < 2 ^ 27) (words_of bs)"
    unfolding list_all_iff by (rule words_of_raws)
  have "sorted (map fst (run 0 (- 1) (words_of bs)))"
    using words_of_raws by (rule run_sorted)
  then have "sorted (map (\<lambda>x. 2 * fst x) (run 0 (- 1) (words_of bs)))"
    by (rule sorted_doubled)
  then have "sorted (map sint (map (\<lambda>x. (word_of_int (fst x) :: int64) * 2)
      (run 0 (- 1) (words_of bs))))"
    by (simp only: sint_timestamps_bounded [OF assms])
  then have "sorted (timestamps (read_timestamps bs legacy))"
    unfolding read_timestamps_bounded [OF assms] timestamps_Inr .
  with returned_bounded [OF assms] ts_word_list_eq raws show ?thesis
    by (intro conjI)
qed

theorem timestamps_nondecreasing_witness:
  "length [0xA0, 0, 0, 0, 0x70, 0, 0, 0, 0xE3, 0, 0, 0 :: byte] \<le> 2 ^ 37
   \<and> returned (read_timestamps [0xA0, 0, 0, 0, 0x70, 0, 0, 0, 0xE3, 0, 0, 0] True)
   \<and> sorted (timestamps (read_timestamps [0xA0, 0, 0, 0, 0x70, 0, 0, 0, 0xE3, 0, 0, 0] True))"
proof -
  have h: "length [0xA0, 0, 0, 0, 0x70, 0, 0, 0, 0xE3, 0, 0, 0 :: byte] \<le> 2 ^ 37"
    by simp
  from timestamps_nondecreasing [OF h, of True] h show ?thesis
    by (elim conjE) (intro conjI; assumption)
qed


lemma length_concat_replicate: "length (concat (replicate n xs)) = n * length xs"
  by (induction n) simp_all

lemma le_words_pairs:
  "le_words (concat (replicate n [0x20, 0, 0, 0, 0, 0, 0, 0])) = concat (replicate n [32, 0])"
  by (induction n) simp_all

lemma words_of_pairs:
  "words_of (concat (replicate n [0x20, 0, 0, 0, 0, 0, 0, 0])) = concat (replicate n [32, 0])"
proof -
  have "length (concat (replicate n [0x20, 0, 0, 0, 0, 0, 0, 0 :: byte])) = 4 * (2 * n)"
    by (simp add: length_concat_replicate)
  then have "length (concat (replicate n [0x20, 0, 0, 0, 0, 0, 0, 0 :: byte])) mod 4 = 0"
    by (simp only: mod_mult_self1_is_0)
  then show ?thesis
    by (simp add: words_of_def le_words_pairs)
qed

lemma run_pair:
  "p \<le> 1 \<Longrightarrow> run c p (32 # 0 # ws) = (1 + 2 ^ 27 * c, 32) # (2 ^ 27 * (c + 1), 0) # run (c + 1) 0 ws"
  by (simp add: raw_counter_def valid_word_def drop_bit_eq_div)

lemma run_pairs:
  "p \<le> 1 \<Longrightarrow> run c p (concat (replicate n [32, 0]))
     = concat (map (\<lambda>k. [(1 + 2 ^ 27 * (c + int k), 32), (2 ^ 27 * (c + int k + 1), 0)]) [0 ..< n])"
proof (induction n arbitrary: c p)
  case 0
  then show ?case by simp
next
  case (Suc n)
  have "run c p (concat (replicate (Suc n) [32, 0]))
      = (1 + 2 ^ 27 * c, 32) # (2 ^ 27 * (c + 1), 0) # run (c + 1) 0 (concat (replicate n [32, 0]))"
    using Suc.prems by (simp add: run_pair del: run.simps)
  also have "run (c + 1) 0 (concat (replicate n [32, 0]))
      = concat (map (\<lambda>k. [(1 + 2 ^ 27 * (c + 1 + int k), 32), (2 ^ 27 * (c + 1 + int k + 1), 0)]) [0 ..< n])"
    by (rule Suc.IH) simp
  also have "\<dots> = concat (map (\<lambda>k. [(1 + 2 ^ 27 * (c + int k), 32), (2 ^ 27 * (c + int k + 1), 0)])
      (map Suc [0 ..< n]))"
    by (simp add: comp_def add.assoc add.commute)
  finally show ?case
    by (simp add: upt_conv_Cons map_Suc_upt del: upt_Suc run.simps)
qed


lemma sorted_hd_last: "sorted xs \<Longrightarrow> xs \<noteq> [] \<Longrightarrow> hd xs \<le> last (xs :: int list)"
  by (cases xs) (auto simp: last_conv_nth)

lemma alternating_stream:
  assumes "0 < n" and "2 ^ 27 * int n < 2 ^ 63"
  shows "returned (read_timestamps (concat (replicate n [0x20, 0, 0, 0, 0, 0, 0, 0])) legacy)"
    and "timestamps (read_timestamps (concat (replicate n [0x20, 0, 0, 0, 0, 0, 0, 0])) legacy) \<noteq> []"
    and "hd (timestamps (read_timestamps (concat (replicate n [0x20, 0, 0, 0, 0, 0, 0, 0])) legacy)) = 2"
    and "last (timestamps (read_timestamps (concat (replicate n [0x20, 0, 0, 0, 0, 0, 0, 0])) legacy))
           = sint ((word_of_int (2 ^ 27 * int n) :: int64) * 2)"
proof -
  define g :: "nat \<Rightarrow> (int \<times> int) list"
    where "g k = [(1 + 2 ^ 27 * (0 + int k), 32), (2 ^ 27 * (0 + int k + 1), 0)]" for k
  define L where "L = concat (map g [0 ..< n])"
  obtain m where n: "n = Suc m"
    using assms(1) by (cases n) simp_all
  have run: "run 0 (- 1) (words_of (concat (replicate n [0x20, 0, 0, 0, 0, 0, 0, 0]))) = L"
    unfolding words_of_pairs L_def g_def by (rule run_pairs) simp
  have split_first: "L = g 0 @ concat (map g [Suc 0 ..< n])"
    unfolding L_def using assms(1) by (simp add: upt_conv_Cons del: upt_Suc)
  have split_last: "L = concat (map g [0 ..< m]) @ g m"
    unfolding L_def n by simp
  have ne: "L \<noteq> []"
    unfolding split_first by (simp add: g_def)
  have hd: "hd L = (1, 32)"
    unfolding split_first by (simp add: g_def)
  have last: "last L = (2 ^ 27 * int n, 0)"
    unfolding split_last by (simp add: g_def n)
  have range: "\<forall>x \<in> set L. - (2 ^ 63) \<le> fst x \<and> fst x < 2 ^ 63"
  proof
    fix x assume "x \<in> set L"
    then obtain k where k: "k < n" and x: "x \<in> set (g k)"
      unfolding L_def by auto
    from k have "int k + 1 \<le> int n" by simp
    then have "(2 ^ 27 :: int) * (int k + 1) \<le> 2 ^ 27 * int n"
      by (intro mult_left_mono) simp_all
    moreover from x have "fst x = 1 + 2 ^ 27 * int k \<or> fst x = 2 ^ 27 * (int k + 1)"
      by (auto simp: g_def)
    ultimately have "0 \<le> fst x \<and> fst x \<le> 2 ^ 27 * int n"
      by auto
    with assms(2) show "- (2 ^ 63) \<le> fst x \<and> fst x < 2 ^ 63"
      by simp
  qed
  have res: "read_timestamps (concat (replicate n [0x20, 0, 0, 0, 0, 0, 0, 0])) legacy
      = Inr (map (\<lambda>x. word_of_int (fst x) * 2) L, map (\<lambda>x. render legacy (snd x)) L)"
    unfolding read_timestamps_unfold run using range by (simp add: list_all_iff)
  show "returned (read_timestamps (concat (replicate n [0x20, 0, 0, 0, 0, 0, 0, 0])) legacy)"
    unfolding res by (rule returned_Inr)
  show "timestamps (read_timestamps (concat (replicate n [0x20, 0, 0, 0, 0, 0, 0, 0])) legacy) \<noteq> []"
    unfolding res timestamps_Inr using ne by simp
  show "hd (timestamps (read_timestamps (concat (replicate n [0x20, 0, 0, 0, 0, 0, 0, 0])) legacy)) = 2"
    unfolding res timestamps_Inr using ne hd by (simp add: hd_map)
  show "last (timestamps (read_timestamps (concat (replicate n [0x20, 0, 0, 0, 0, 0, 0, 0])) legacy))
           = sint ((word_of_int (2 ^ 27 * int n) :: int64) * 2)"
    unfolding res timestamps_Inr using ne last by (simp add: last_map)
qed

text \<open>
  The claim C3 as stated fails. On the stream of \<open>2 ^ 35\<close> repetitions of a word with raw
  value 1 followed by a word with raw value 0, every second word is a rollover; the last
  absolute tick count is \<open>2 ^ 62\<close>, its double leaves the \<open>int64\<close> range, and the last
  timestamp is negative while the first is 2.
\<close>

theorem timestamps_nondecreasing_counterexample:
  "returned (read_timestamps (concat (replicate (2 ^ 35) [0x20, 0, 0, 0, 0, 0, 0, 0])) True)
   \<and> \<not> sorted (timestamps
         (read_timestamps (concat (replicate (2 ^ 35) [0x20, 0, 0, 0, 0, 0, 0, 0])) True))"
proof -
  have pos: "0 < (2 :: nat) ^ 35"
    by simp
  have small: "2 ^ 27 * int (2 ^ 35) < 2 ^ 63"
    by simp
  have wrap: "sint ((word_of_int (2 ^ 27 * int (2 ^ 35)) :: int64) * 2) = - (2 ^ 63)"
    by simp
  note facts = alternating_stream [OF pos small, of True]
  have "\<not> sorted (timestamps
         (read_timestamps (concat (replicate (2 ^ 35) [0x20, 0, 0, 0, 0, 0, 0, 0])) True))"
  proof
    assume "sorted (timestamps
         (read_timestamps (concat (replicate (2 ^ 35) [0x20, 0, 0, 0, 0, 0, 0, 0])) True))"
    then have "hd (timestamps
         (read_timestamps (concat (replicate (2 ^ 35) [0x20, 0, 0, 0, 0, 0, 0, 0])) True))
       \<le> last (timestamps
         (read_timestamps (concat (replicate (2 ^ 35) [0x20, 0, 0, 0, 0, 0, 0, 0])) True))"
      using facts(2) by (rule sorted_hd_last)
    then have "(2 :: int) \<le> - (2 ^ 63)"
      unfolding facts(3) facts(4) wrap .
    then show False by simp
  qed
  with facts(1) show ?thesis by (rule conjI)
qed

section \<open>Inserting a rollover word\<close>

lemma run_shift:
  "run (c + d) p ws = map (\<lambda>x. (fst x + 2 ^ 27 * d, snd x)) (run c p ws)"
proof (induction ws arbitrary: c p)
  case Nil
  then show ?case by simp
next
  case (Cons w ws)
  have "run (c + d + 1) (raw_counter w) ws = run (c + 1 + d) (raw_counter w) ws"
    by (simp add: ac_simps)
  also have "\<dots> = map (\<lambda>x. (fst x + 2 ^ 27 * d, snd x)) (run (c + 1) (raw_counter w) ws)"
    by (rule Cons.IH)
  finally have up: "run (c + d + 1) (raw_counter w) ws
      = map (\<lambda>x. (fst x + 2 ^ 27 * d, snd x)) (run (c + 1) (raw_counter w) ws)" .
  have same: "run (c + d) (raw_counter w) ws
      = map (\<lambda>x. (fst x + 2 ^ 27 * d, snd x)) (run c (raw_counter w) ws)"
    by (rule Cons.IH)
  show ?case
    by (simp add: Let_def distrib_left up same)
qed

lemma run_prev_cong:
  "ws = [] \<or> (q \<noteq> - 1 \<and> raw_counter (hd ws) < q) = (p \<noteq> - 1 \<and> raw_counter (hd ws) < p)
   \<Longrightarrow> run c q ws = run c p ws"
  by (cases ws) simp_all

lemma run_inserted:
  assumes "ws1 \<noteq> []" and "0 \<le> raw_counter (last ws1)"
    and "0 \<le> raw_counter w" and "raw_counter w < raw_counter (last ws1)"
    and "ws2 = [] \<or> raw_counter (hd ws2) < raw_counter w
           \<or> raw_counter (last ws1) \<le> raw_counter (hd ws2)"
  shows "run 0 (- 1) (ws1 @ [w] @ ws2)
     = run 0 (- 1) ws1 @ run (count_after 0 (- 1) ws1) (raw_counter (last ws1)) [w]
       @ map (\<lambda>x. (fst x + 2 ^ 27, snd x))
           (run (count_after 0 (- 1) ws1) (raw_counter (last ws1)) ws2)"
    and "run 0 (- 1) (ws1 @ ws2)
     = run 0 (- 1) ws1 @ run (count_after 0 (- 1) ws1) (raw_counter (last ws1)) ws2"
proof -
  define c where "c = count_after 0 (- 1) ws1"
  define p where "p = raw_counter (last ws1)"
  have prev: "prev_after (- 1) ws1 = p"
    using assms(1) by (simp add: prev_after_def p_def)
  have p: "p \<noteq> - 1" "raw_counter w \<noteq> - 1" "raw_counter w < p"
    using assms(2,3,4) by (simp_all add: p_def)
  have cong: "ws2 = [] \<or> (raw_counter w \<noteq> - 1 \<and> raw_counter (hd ws2) < raw_counter w)
      = (p \<noteq> - 1 \<and> raw_counter (hd ws2) < p)"
    using assms(4,5) p by (auto simp: p_def)
  have "run 0 (- 1) (ws1 @ [w] @ ws2) = run 0 (- 1) ws1 @ run c p ([w] @ ws2)"
    by (simp only: run_append prev c_def)
  also have "run c p ([w] @ ws2) = run c p [w] @ run (c + 1) (raw_counter w) ws2"
    using p by (simp add: Let_def)
  also have "run (c + 1) (raw_counter w) ws2 = run (c + 1) p ws2"
    using cong by (rule run_prev_cong)
  also have "\<dots> = map (\<lambda>x. (fst x + 2 ^ 27, snd x)) (run c p ws2)"
    using run_shift [of c 1 p ws2] by simp
  finally show "run 0 (- 1) (ws1 @ [w] @ ws2)
     = run 0 (- 1) ws1 @ run (count_after 0 (- 1) ws1) (raw_counter (last ws1)) [w]
       @ map (\<lambda>x. (fst x + 2 ^ 27, snd x))
           (run (count_after 0 (- 1) ws1) (raw_counter (last ws1)) ws2)"
    unfolding c_def p_def .
  show "run 0 (- 1) (ws1 @ ws2)
     = run 0 (- 1) ws1 @ run (count_after 0 (- 1) ws1) (raw_counter (last ws1)) ws2"
    by (simp only: run_append prev p_def)
qed

text \<open>
  C2, as the code has it. Take a stream of at most \<open>2 ^ 37\<close> bytes after the insertion,
  cut at a word boundary into \<open>bs1\<close> (not empty) and \<open>bs2\<close>, and insert between them one
  4-byte word whose raw counter value is strictly below that of the last word of \<open>bs1\<close>.
  If the first word of \<open>bs2\<close>, when there is one, does not have a raw value from the
  inserted one up to below the preceding one, then the timestamps of the valid words of
  \<open>bs2\<close>, which are the last entries of the output, each grow by exactly \<open>2 ^ 27 * 2\<close>.
\<close>

theorem inserted_rollover:
  assumes "length bs2 mod 4 = 0" and "length wb = 4"
    and "ts_word_list bs1 = Inr ws1" and "ts_word_list wb = Inr [w]"
    and "ts_word_list bs2 = Inr ws2"
    and "ws1 \<noteq> []"
    and "raw_counter w < raw_counter (last ws1)"
    and "ws2 = [] \<or> raw_counter (hd ws2) < raw_counter w
           \<or> raw_counter (last ws1) \<le> raw_counter (hd ws2)"
    and "length (bs1 @ wb @ bs2) \<le> 2 ^ 37"
  shows "returned (read_timestamps (bs1 @ bs2) legacy)
     \<and> returned (read_timestamps (bs1 @ wb @ bs2) legacy)
     \<and> length (filter valid_word ws2) \<le> length (timestamps (read_timestamps (bs1 @ bs2) legacy))
     \<and> length (filter valid_word ws2)
           \<le> length (timestamps (read_timestamps (bs1 @ wb @ bs2) legacy))
     \<and> drop (length (timestamps (read_timestamps (bs1 @ wb @ bs2) legacy))
               - length (filter valid_word ws2))
           (timestamps (read_timestamps (bs1 @ wb @ bs2) legacy))
         = map (\<lambda>t. t + 2 ^ 27 * 2)
             (drop (length (timestamps (read_timestamps (bs1 @ bs2) legacy))
                      - length (filter valid_word ws2))
                (timestamps (read_timestamps (bs1 @ bs2) legacy)))"
proof -
  have ws1: "ws1 = words_of bs1" and w: "[w] = words_of wb" and ws2: "ws2 = words_of bs2"
    using assms(3,4,5) by (simp_all add: ts_word_list_eq)
  have ws2': "le_words bs2 = ws2"
    using assms(1) by (simp add: ws2 words_of_aligned)
  have "length wb mod 4 = 0"
    using assms(2) by simp
  then have w': "le_words wb = [w]"
    by (simp add: w words_of_aligned)
  have al: "length (wb @ bs2) mod 4 = 0"
    using assms(1,2) by simp
  have old: "words_of (bs1 @ bs2) = ws1 @ ws2"
    using assms(1) by (simp add: words_of_append ws1 ws2')
  have "le_words (wb @ bs2) = [w] @ ws2"
    using \<open>length wb mod 4 = 0\<close> by (simp only: le_words_append w' ws2')
  then have new: "words_of (bs1 @ wb @ bs2) = ws1 @ [w] @ ws2"
    using al by (simp only: words_of_append ws1)
  have raws1: "0 \<le> raw_counter (last ws1)"
    using words_of_raws [of bs1] assms(6) last_in_set [of ws1] by (simp add: ws1)
  have "w \<in> set (words_of wb)"
    using w by (metis list.set_intros(1))
  then have raww: "0 \<le> raw_counter w"
    using words_of_raws [of wb] by simp
  define c p where "c = count_after 0 (- 1) ws1" and "p = raw_counter (last ws1)"
  define A B W where "A = run 0 (- 1) ws1" and "B = run c p ws2" and "W = run c p [w]"
  have runs: "run 0 (- 1) (ws1 @ [w] @ ws2) = A @ W @ map (\<lambda>x. (fst x + 2 ^ 27, snd x)) B"
    "run 0 (- 1) (ws1 @ ws2) = A @ B"
    unfolding A_def B_def W_def c_def p_def
    using assms(6) raws1 raww assms(7,8) by (rule run_inserted)+
  have lenB: "length B = length (filter valid_word ws2)"
    using arg_cong [OF map_snd_run [of c p ws2], of length] by (simp add: B_def)
  have short: "length (bs1 @ bs2) \<le> 2 ^ 37"
    using assms(9) by simp
  have ts: "timestamps (read_timestamps (bs1 @ bs2) legacy) = map (\<lambda>x. 2 * fst x) (A @ B)"
    unfolding timestamps_bounded [OF short] old runs ..
  have ts': "timestamps (read_timestamps (bs1 @ wb @ bs2) legacy)
      = map (\<lambda>x. 2 * fst x) (A @ W @ map (\<lambda>x. (fst x + 2 ^ 27, snd x)) B)"
    unfolding timestamps_bounded [OF assms(9)] new runs ..
  have "drop (length (timestamps (read_timestamps (bs1 @ wb @ bs2) legacy)) - length B)
           (timestamps (read_timestamps (bs1 @ wb @ bs2) legacy))
      = map (\<lambda>x. 2 * fst x) (map (\<lambda>x. (fst x + 2 ^ 27, snd x)) B)"
    unfolding ts' by simp
  moreover have "drop (length (timestamps (read_timestamps (bs1 @ bs2) legacy)) - length B)
           (timestamps (read_timestamps (bs1 @ bs2) legacy))
      = map (\<lambda>x. 2 * fst x) B"
    unfolding ts by simp
  moreover have "map (\<lambda>x. 2 * fst x) (map (\<lambda>x. (fst x + 2 ^ 27, snd x)) B)
      = map (\<lambda>t. t + 2 ^ 27 * 2) (map (\<lambda>x. 2 * fst x) B)"
    by (simp add: comp_def)
  moreover have "length B \<le> length (timestamps (read_timestamps (bs1 @ bs2) legacy))"
    unfolding ts by simp
  moreover have "length B \<le> length (timestamps (read_timestamps (bs1 @ wb @ bs2) legacy))"
    unfolding ts' by simp
  ultimately show ?thesis
    unfolding lenB using returned_bounded [OF short] returned_bounded [OF assms(9)]
    by (simp only: simp_thms)
qed


theorem inserted_rollover_witness:
  "length [0xE3, 0, 0, 0 :: byte] mod 4 = 0
   \<and> length [0x40, 0, 0, 0 :: byte] = 4
   \<and> ts_word_list [0xA0, 0, 0, 0] = Inr [160]
   \<and> ts_word_list [0x40, 0, 0, 0] = Inr [64]
   \<and> ts_word_list [0xE3, 0, 0, 0] = Inr [227]
   \<and> raw_counter 64 < raw_counter (last [160])
   \<and> raw_counter (last [160]) \<le> raw_counter (hd [227])
   \<and> length ([0xA0, 0, 0, 0] @ [0x40, 0, 0, 0] @ [0xE3, 0, 0, 0 :: byte]) \<le> 2 ^ 37
   \<and> timestamps (read_timestamps ([0xA0, 0, 0, 0] @ [0xE3, 0, 0, 0]) True) = [10, 14]
   \<and> timestamps (read_timestamps ([0xA0, 0, 0, 0] @ [0x40, 0, 0, 0] @ [0xE3, 0, 0, 0]) True)
       = [10, 268435460, 268435470]
   \<and> drop (length (timestamps
               (read_timestamps ([0xA0, 0, 0, 0] @ [0x40, 0, 0, 0] @ [0xE3, 0, 0, 0]) True))
             - length (filter valid_word [227]))
         (timestamps (read_timestamps ([0xA0, 0, 0, 0] @ [0x40, 0, 0, 0] @ [0xE3, 0, 0, 0]) True))
       = map (\<lambda>t. t + 2 ^ 27 * 2)
           (drop (length (timestamps (read_timestamps ([0xA0, 0, 0, 0] @ [0xE3, 0, 0, 0]) True))
                   - length (filter valid_word [227]))
              (timestamps (read_timestamps ([0xA0, 0, 0, 0] @ [0xE3, 0, 0, 0]) True)))"
proof -
  have h1: "length [0xE3, 0, 0, 0 :: byte] mod 4 = 0"
    by simp
  have h2: "length [0x40, 0, 0, 0 :: byte] = 4"
    by simp
  have h3: "ts_word_list [0xA0, 0, 0, 0] = Inr [160]"
    by (simp add: ts_word_list_eq words_of_def)
  have h4: "ts_word_list [0x40, 0, 0, 0] = Inr [64]"
    by (simp add: ts_word_list_eq words_of_def)
  have h5: "ts_word_list [0xE3, 0, 0, 0] = Inr [227]"
    by (simp add: ts_word_list_eq words_of_def)
  have h6: "[160 :: int] \<noteq> []"
    by simp
  have h7: "raw_counter 64 < raw_counter (last [160])"
    by (simp add: raw_counter_def drop_bit_eq_div)
  have h8': "raw_counter (last [160]) \<le> raw_counter (hd [227])"
    by (simp add: raw_counter_def drop_bit_eq_div)
  then have h8: "[227 :: int] = [] \<or> raw_counter (hd [227]) < raw_counter 64
      \<or> raw_counter (last [160]) \<le> raw_counter (hd [227])"
    by (intro disjI2)
  have h9: "length ([0xA0, 0, 0, 0] @ [0x40, 0, 0, 0] @ [0xE3, 0, 0, 0 :: byte]) \<le> 2 ^ 37"
    by simp
  have short: "length ([0xA0, 0, 0, 0] @ [0xE3, 0, 0, 0 :: byte]) \<le> 2 ^ 37"
    by simp
  have t: "timestamps (read_timestamps ([0xA0, 0, 0, 0] @ [0xE3, 0, 0, 0]) True) = [10, 14]"
  proof -
    have "words_of ([0xA0, 0, 0, 0] @ [0xE3, 0, 0, 0]) = [160, 227]"
      by (simp add: words_of_def)
    moreover have "run 0 (- 1) [160, 227] = [(5, 160), (7, 227)]"
      by (simp add: raw_counter_def valid_word_def drop_bit_eq_div)
    ultimately have "timestamps (read_timestamps ([0xA0, 0, 0, 0] @ [0xE3, 0, 0, 0]) True)
        = map (\<lambda>x. 2 * fst x) [(5, 160 :: int), (7, 227)]"
      using short by (rule timestamps_eval)
    then show ?thesis by simp
  qed
  have t': "timestamps (read_timestamps ([0xA0, 0, 0, 0] @ [0x40, 0, 0, 0] @ [0xE3, 0, 0, 0]) True)
      = [10, 268435460, 268435470]"
  proof -
    have "words_of ([0xA0, 0, 0, 0] @ [0x40, 0, 0, 0] @ [0xE3, 0, 0, 0]) = [160, 64, 227]"
      by (simp add: words_of_def)
    moreover have "run 0 (- 1) [160, 64, 227] = [(5, 160), (134217730, 64), (134217735, 227)]"
      by (simp add: raw_counter_def valid_word_def drop_bit_eq_div)
    ultimately have "timestamps
          (read_timestamps ([0xA0, 0, 0, 0] @ [0x40, 0, 0, 0] @ [0xE3, 0, 0, 0]) True)
        = map (\<lambda>x. 2 * fst x) [(5, 160 :: int), (134217730, 64), (134217735, 227)]"
      using h9 by (rule timestamps_eval)
    then show ?thesis by simp
  qed
  from inserted_rollover [OF h1 h2 h3 h4 h5 h6 h7 h8 h9, of True]
  have "drop (length (timestamps
               (read_timestamps ([0xA0, 0, 0, 0] @ [0x40, 0, 0, 0] @ [0xE3, 0, 0, 0]) True))
             - length (filter valid_word [227]))
         (timestamps (read_timestamps ([0xA0, 0, 0, 0] @ [0x40, 0, 0, 0] @ [0xE3, 0, 0, 0]) True))
       = map (\<lambda>t. t + 2 ^ 27 * 2)
           (drop (length (timestamps (read_timestamps ([0xA0, 0, 0, 0] @ [0xE3, 0, 0, 0]) True))
                   - length (filter valid_word [227]))
              (timestamps (read_timestamps ([0xA0, 0, 0, 0] @ [0xE3, 0, 0, 0]) True)))"
    by (elim conjE)
  with h1 h2 h3 h4 h5 h7 h8' h9 t t' show ?thesis
    by (intro conjI)
qed

text \<open>
  The claim C2 as stated fails. Between the words with raw values 5 and 3 a word with raw
  value 2 is inserted: it is a rollover, but the word after it no longer is one, and its
  timestamp stays what it was.
\<close>

theorem inserted_rollover_counterexample:
  "ts_word_list ([0xA0, 0, 0, 0] @ [0x60, 0, 0, 0]) = Inr [160, 96]
   \<and> ts_word_list ([0xA0, 0, 0, 0] @ [0x40, 0, 0, 0] @ [0x60, 0, 0, 0]) = Inr [160, 64, 96]
   \<and> raw_counter 64 < raw_counter 160
   \<and> timestamps (read_timestamps ([0xA0, 0, 0, 0] @ [0x60, 0, 0, 0]) True) = [10, 268435462]
   \<and> timestamps (read_timestamps ([0xA0, 0, 0, 0] @ [0x40, 0, 0, 0] @ [0x60, 0, 0, 0]) True)
       = [10, 268435460, 268435462]
   \<and> last (timestamps (read_timestamps ([0xA0, 0, 0, 0] @ [0x40, 0, 0, 0] @ [0x60, 0, 0, 0]) True))
       \<noteq> last (timestamps (read_timestamps ([0xA0, 0, 0, 0] @ [0x60, 0, 0, 0]) True)) + 2 ^ 27 * 2"
proof -
  have w: "words_of ([0xA0, 0, 0, 0] @ [0x60, 0, 0, 0]) = [160, 96]"
    by (simp add: words_of_def)
  have w': "words_of ([0xA0, 0, 0, 0] @ [0x40, 0, 0, 0] @ [0x60, 0, 0, 0]) = [160, 64, 96]"
    by (simp add: words_of_def)
  have c1: "ts_word_list ([0xA0, 0, 0, 0] @ [0x60, 0, 0, 0]) = Inr [160, 96]"
    unfolding ts_word_list_eq w ..
  have c2: "ts_word_list ([0xA0, 0, 0, 0] @ [0x40, 0, 0, 0] @ [0x60, 0, 0, 0]) = Inr [160, 64, 96]"
    unfolding ts_word_list_eq w' ..
  have c3: "raw_counter 64 < raw_counter 160"
    by (simp add: raw_counter_def drop_bit_eq_div)
  have r: "run 0 (- 1) [160, 96] = [(5, 160), (134217731, 96)]"
    by (simp add: raw_counter_def valid_word_def drop_bit_eq_div)
  have r': "run 0 (- 1) [160, 64, 96] = [(5, 160), (134217730, 64), (134217731, 96)]"
    by (simp add: raw_counter_def valid_word_def drop_bit_eq_div)
  have "timestamps (read_timestamps ([0xA0, 0, 0, 0] @ [0x60, 0, 0, 0]) True)
      = map (\<lambda>x. 2 * fst x) [(5, 160 :: int), (134217731, 96)]"
    using w r by (rule timestamps_eval) simp
  then have c4: "timestamps (read_timestamps ([0xA0, 0, 0, 0] @ [0x60, 0, 0, 0]) True)
      = [10, 268435462]"
    by simp
  have "timestamps (read_timestamps ([0xA0, 0, 0, 0] @ [0x40, 0, 0, 0] @ [0x60, 0, 0, 0]) True)
      = map (\<lambda>x. 2 * fst x) [(5, 160 :: int), (134217730, 64), (134217731, 96)]"
    using w' r' by (rule timestamps_eval) simp
  then have c5: "timestamps
        (read_timestamps ([0xA0, 0, 0, 0] @ [0x40, 0, 0, 0] @ [0x60, 0, 0, 0]) True)
      = [10, 268435460, 268435462]"
    by simp
  have c6: "last (timestamps
        (read_timestamps ([0xA0, 0, 0, 0] @ [0x40, 0, 0, 0] @ [0x60, 0, 0, 0]) True))
       \<noteq> last (timestamps (read_timestamps ([0xA0, 0, 0, 0] @ [0x60, 0, 0, 0]) True)) + 2 ^ 27 * 2"
    unfolding c4 c5 by simp
  from c1 c2 c3 c4 c5 c6 show ?thesis
    by (intro conjI)
qed

section \<open>Flagged words\<close>

lemma decode_flagged:
  assumes "\<not> valid_word w"
  shows "decode_word legacy st w =
     st\<lparr>periode_count := (if prev_ts st \<noteq> - 1 \<and> raw_counter w < prev_ts st
                           then periode_count st + 1 else periode_count st),
        prev_ts := raw_counter w\<rparr>"
  using assms by (simp add: decode_word_eq prev_after_def Let_def)

lemma flagged_examples:
  "timestamps (read_timestamps [0xA0, 0, 0, 0, 0x70, 0, 0, 0, 0xE0, 0, 0, 0] True) = [10, 268435470]"
  "timestamps (read_timestamps [0xA0, 0, 0, 0, 0xE0, 0, 0, 0] True) = [10, 14]"
proof -
  have "words_of [0xA0, 0, 0, 0, 0x70, 0, 0, 0, 0xE0, 0, 0, 0] = [160, 112, 224]"
    by (simp add: words_of_def)
  moreover have "run 0 (- 1) [160, 112, 224] = [(5, 160), (134217735, 224)]"
    by (simp add: raw_counter_def valid_word_def drop_bit_eq_div)
  ultimately have "timestamps (read_timestamps [0xA0, 0, 0, 0, 0x70, 0, 0, 0, 0xE0, 0, 0, 0] True)
      = map (\<lambda>x. 2 * fst x) [(5, 160 :: int), (134217735, 224)]"
    by (rule timestamps_eval) simp
  then show "timestamps (read_timestamps [0xA0, 0, 0, 0, 0x70, 0, 0, 0, 0xE0, 0, 0, 0] True)
      = [10, 268435470]"
    by simp
  have "words_of [0xA0, 0, 0, 0, 0xE0, 0, 0, 0] = [160, 224]"
    by (simp add: words_of_def)
  moreover have "run 0 (- 1) [160, 224] = [(5, 160), (7, 224)]"
    by (simp add: raw_counter_def valid_word_def drop_bit_eq_div)
  ultimately have "timestamps (read_timestamps [0xA0, 0, 0, 0, 0xE0, 0, 0, 0] True)
      = map (\<lambda>x. 2 * fst x) [(5, 160 :: int), (7, 224)]"
    by (rule timestamps_eval) simp
  then show "timestamps (read_timestamps [0xA0, 0, 0, 0, 0xE0, 0, 0, 0] True) = [10, 14]"
    by simp
qed

lemma suppressed_examples:
  "periode_count (decode_word True (foldl (decode_word True) decoder_init [160, 80]) 96)
     = periode_count (foldl (decode_word True) decoder_init [160, 80])"
  "periode_count (decode_word True (foldl (decode_word True) decoder_init [160]) 96)
     = periode_count (foldl (decode_word True) decoder_init [160]) + 1"
  unfolding loop_from_init decode_word_eq
  by (simp_all add: raw_counter_def prev_after_def drop_bit_eq_div)

text \<open>
  C4. A word whose flag bit (bit 4 of the trailer) is set leaves \<open>ts_list\<close> and
  \<open>event_channel_list\<close> as they are, whatever the state of the loop; it still becomes the
  previous raw value and increments the rollover counter when its raw value is below the
  previous one. This reaches later words: the flagged word with raw value 3 between the
  raw values 5 and 7 triggers an increment that moves the timestamp of the last word from
  14 to 268435470; the flagged word with raw value 2 between the raw values 5 and 3 takes
  the increment that the last word would have caused, which then causes none.
\<close>

theorem flagged_word_only_tracks_rollover:
  "(\<not> valid_word w \<longrightarrow>
      ts_list (decode_word legacy st w) = ts_list st
    \<and> event_channel_list (decode_word legacy st w) = event_channel_list st
    \<and> prev_ts (decode_word legacy st w) = raw_counter w
    \<and> periode_count (decode_word legacy st w)
        = (if prev_ts st \<noteq> - 1 \<and> raw_counter w < prev_ts st
           then periode_count st + 1 else periode_count st))
   \<and> \<not> valid_word 0x70 \<and> \<not> valid_word 0x50
   \<and> timestamps (read_timestamps [0xA0, 0, 0, 0, 0x70, 0, 0, 0, 0xE0, 0, 0, 0] True)
       = [10, 268435470]
   \<and> timestamps (read_timestamps [0xA0, 0, 0, 0, 0xE0, 0, 0, 0] True) = [10, 14]
   \<and> periode_count (decode_word True (foldl (decode_word True) decoder_init [0xA0, 0x50]) 0x60)
       = periode_count (foldl (decode_word True) decoder_init [0xA0, 0x50])
   \<and> periode_count (decode_word True (foldl (decode_word True) decoder_init [0xA0]) 0x60)
       = periode_count (foldl (decode_word True) decoder_init [0xA0]) + 1"
proof -
  have "\<not> valid_word w \<longrightarrow>
      ts_list (decode_word legacy st w) = ts_list st
    \<and> event_channel_list (decode_word legacy st w) = event_channel_list st
    \<and> prev_ts (decode_word legacy st w) = raw_counter w
    \<and> periode_count (decode_word legacy st w)
        = (if prev_ts st \<noteq> - 1 \<and> raw_counter w < prev_ts st
           then periode_count st + 1 else periode_count st)"
    by (simp add: decode_flagged)
  moreover have "\<not> valid_word 0x70" "\<not> valid_word 0x50"
    by (simp_all add: valid_word_def)
  moreover have "periode_count (decode_word True (foldl (decode_word True) decoder_init [0xA0, 0x50]) 0x60)
       = periode_count (foldl (decode_word True) decoder_init [0xA0, 0x50])"
    "periode_count (decode_word True (foldl (decode_word True) decoder_init [0xA0]) 0x60)
       = periode_count (foldl (decode_word True) decoder_init [0xA0]) + 1"
    using suppressed_examples by simp_all
  ultimately show ?thesis
    using flagged_examples by (intro conjI)
qed

theorem flagged_word_only_tracks_rollover_witness:
  "\<not> valid_word 0x70
   \<and> ts_list (decode_word True (decode_word True decoder_init 0xA0) 0x70) = [5]
   \<and> event_channel_list (decode_word True (decode_word True decoder_init 0xA0) 0x70)
       = [ChStr ''0000'']
   \<and> prev_ts (decode_word True (decode_word True decoder_init 0xA0) 0x70) = 3
   \<and> periode_count (decode_word True (decode_word True decoder_init 0xA0) 0x70) = 1"
proof -
  have h: "\<not> valid_word 0x70"
    by (simp add: valid_word_def)
  have st: "decode_word True decoder_init 0xA0
      = \<lparr>ts_list = [5], event_channel_list = [ChStr ''0000''], periode_count = 0, prev_ts = 5\<rparr>"
    by (simp add: decode_word_eq decoder_init_def raw_counter_def valid_word_def prev_after_def
        drop_bit_eq_div) code_simp
  have r: "raw_counter 0x70 = 3"
    by (simp add: raw_counter_def drop_bit_eq_div)
  from flagged_word_only_tracks_rollover [of "0x70" True "decode_word True decoder_init 0xA0"] h
  show ?thesis
    unfolding st r by simp
qed

section \<open>Properties of the channel pattern expansion\<close>

lemma clean_pattern_four:
  assumes "length p = 4"
  shows "clean_pattern st p =
     Inr (st\<lparr>cha_clean := cha_clean st @ [active_channels p],
             counts_1 := counts_1 st + (if p ! 3 = CHR ''1'' then 1 else 0),
             counts_2 := counts_2 st + (if p ! 2 = CHR ''1'' then 1 else 0),
             counts_3 := counts_3 st + (if p ! 1 = CHR ''1'' then 1 else 0),
             counts_4 := counts_4 st + (if p ! 0 = CHR ''1'' then 1 else 0)\<rparr>)"
  using assms by (simp add: clean_pattern_def char_at_def active_channels_def Let_def)

lemma clean_patterns_four:
  "\<forall>p \<in> set ps. length p = 4 \<Longrightarrow>
   clean_patterns st ps =
     Inr (st\<lparr>cha_clean := cha_clean st @ map active_channels ps,
             counts_1 := counts_1 st + bit_count 3 ps,
             counts_2 := counts_2 st + bit_count 2 ps,
             counts_3 := counts_3 st + bit_count 1 ps,
             counts_4 := counts_4 st + bit_count 0 ps\<rparr>)"
proof (induction ps arbitrary: st)
  case Nil
  then show ?case by (simp add: bit_count_def)
next
  case (Cons p ps)
  then have "length p = 4" and rest: "\<forall>p \<in> set ps. length p = 4"
    by simp_all
  then show ?case
    by (simp add: clean_pattern_four Cons.IH [OF rest] bit_count_def)
qed

lemma clean_patterns_append:
  "clean_patterns st (ps @ qs) =
     (case clean_patterns st ps of Inl e \<Rightarrow> Inl e | Inr st' \<Rightarrow> clean_patterns st' qs)"
  by (induction ps arbitrary: st) (simp_all split: sum.splits)


lemma active_channels_0110: "active_channels ''0110'' = [''CH3'', ''CH2'']"
  by (simp add: active_channels_def)

text \<open>
  C8. On 4-character patterns \<open>channel_cleaner\<close> returns, for each pattern, the names of
  the channels whose character is \<open>1\<close>, in the order CH4, CH3, CH2, CH1, and the totals
  \<open>(counts_1, counts_2, counts_3, counts_4)\<close>, where the count of channel \<open>k\<close> is the
  number of patterns whose character \<open>4 - k\<close> is \<open>1\<close>. The pattern \<open>0110\<close> expands to
  CH3, CH2, and appending it to any input raises the counts of channels 2 and 3 by one
  and leaves the other two.
\<close>

theorem channel_cleaner_expands:
  "((\<forall>p \<in> set ps. length p = 4) \<longrightarrow>
      channel_cleaner ps =
        Inr (map active_channels ps,
             (bit_count 3 ps, bit_count 2 ps, bit_count 1 ps, bit_count 0 ps)))
   \<and> active_channels ''0110'' = [''CH3'', ''CH2'']
   \<and> (channel_cleaner qs = Inr (cl, (c1, c2, c3, c4)) \<longrightarrow>
        channel_cleaner (qs @ [''0110'']) =
          Inr (cl @ [[''CH3'', ''CH2'']], (c1, c2 + 1, c3 + 1, c4)))"
proof (intro conjI impI)
  assume "\<forall>p \<in> set ps. length p = 4"
  then show "channel_cleaner ps =
      Inr (map active_channels ps,
           (bit_count 3 ps, bit_count 2 ps, bit_count 1 ps, bit_count 0 ps))"
    by (simp add: channel_cleaner_def clean_patterns_four)
next
  show "active_channels ''0110'' = [''CH3'', ''CH2'']"
    by (rule active_channels_0110)
next
  assume res: "channel_cleaner qs = Inr (cl, (c1, c2, c3, c4))"
  then obtain st
    where st: "clean_patterns
        \<lparr>cha_clean = [], counts_1 = 0, counts_2 = 0, counts_3 = 0, counts_4 = 0\<rparr> qs = Inr st"
      and out: "cha_clean st = cl" "counts_1 st = c1" "counts_2 st = c2" "counts_3 st = c3"
        "counts_4 st = c4"
    by (auto simp: channel_cleaner_def split: sum.splits)
  have "clean_patterns
        \<lparr>cha_clean = [], counts_1 = 0, counts_2 = 0, counts_3 = 0, counts_4 = 0\<rparr>
        (qs @ [''0110''])
      = clean_patterns st [''0110'']"
    by (simp add: clean_patterns_append st)
  also have "\<dots> = Inr (st\<lparr>cha_clean := cha_clean st @ [[''CH3'', ''CH2'']],
        counts_2 := counts_2 st + 1, counts_3 := counts_3 st + 1\<rparr>)"
    by (simp add: clean_pattern_four active_channels_0110)
  finally show "channel_cleaner (qs @ [''0110'']) =
      Inr (cl @ [[''CH3'', ''CH2'']], (c1, c2 + 1, c3 + 1, c4))"
    by (simp add: channel_cleaner_def out)
qed

theorem channel_cleaner_expands_witness:
  "list_all (\<lambda>p. length p = 4) [''1001'', ''0110'']
   \<and> channel_cleaner [''1001'', ''0110''] =
       Inr ([[''CH4'', ''CH1''], [''CH3'', ''CH2'']], (1, 1, 1, 1))
   \<and> channel_cleaner [''1001''] = Inr ([[''CH4'', ''CH1'']], (1, 0, 0, 1))
   \<and> channel_cleaner ([''1001''] @ [''0110'']) =
       Inr ([[''CH4'', ''CH1'']] @ [[''CH3'', ''CH2'']], (1, 0 + 1, 0 + 1, 1))"
proof -
  have h: "\<forall>p \<in> set [''1001'', ''0110'']. length p = 4"
    by simp
  have e: "map active_channels [''1001'', ''0110''] = [[''CH4'', ''CH1''], [''CH3'', ''CH2'']]"
    "(bit_count 3 [''1001'', ''0110''], bit_count 2 [''1001'', ''0110''],
      bit_count 1 [''1001'', ''0110''], bit_count 0 [''1001'', ''0110'']) = (1, 1, 1, 1)"
    by (simp_all add: active_channels_def bit_count_def)
  have one: "channel_cleaner [''1001''] = Inr ([[''CH4'', ''CH1'']], (1, 0, 0, 1))"
    by (simp add: channel_cleaner_def clean_pattern_four active_channels_def)
  note inst = channel_cleaner_expands [of "[''1001'', ''0110'']" "[''1001'']"
      "[[''CH4'', ''CH1'']]" 1 0 0 1]
  have "channel_cleaner [''1001'', ''0110''] =
       Inr (map active_channels [''1001'', ''0110''],
            (bit_count 3 [''1001'', ''0110''], bit_count 2 [''1001'', ''0110''],
             bit_count 1 [''1001'', ''0110''], bit_count 0 [''1001'', ''0110'']))"
    using inst [THEN conjunct1] h by (rule mp)
  then have "channel_cleaner [''1001'', ''0110''] =
       Inr ([[''CH4'', ''CH1''], [''CH3'', ''CH2'']], (1, 1, 1, 1))"
    unfolding e .
  moreover have "channel_cleaner ([''1001''] @ [''0110'']) =
       Inr ([[''CH4'', ''CH1'']] @ [[''CH3'', ''CH2'']], (1, 0 + 1, 0 + 1, 1))"
    using inst [THEN conjunct2, THEN conjunct2] one by (rule mp)
  moreover have "list_all (\<lambda>p. length p = 4) [''1001'', ''0110'']"
    by simp
  ultimately show ?thesis
    using one by (intro conjI)
qed

section \<open>Round trip through the encoder\<close>

lemma le_uint_word_bytes:
  assumes "0 \<le> w" and "w < 2 ^ 32"
  shows "le_uint (word_bytes w) = w"
proof -
  have u: "uint (word_of_int k :: byte) = k mod 256" for k
    by (simp add: uint_word_of_int_eq take_bit_eq_mod)
  have d2: "w div 65536 = w div 256 div 256" and d3: "w div 16777216 = w div 256 div 256 div 256"
    by (simp_all add: zdiv_zmult2_eq [symmetric])
  have "w div 16777216 < 256"
    using assms by simp
  moreover have "0 \<le> w div 16777216"
    using assms by (simp add: pos_imp_zdiv_nonneg_iff)
  ultimately have top: "w div 256 div 256 div 256 mod 256 = w div 256 div 256 div 256"
    unfolding d3 by simp
  have "le_uint (word_bytes w)
      = w mod 256 + 256 * (w div 256 mod 256 + 256 * (w div 256 div 256 mod 256
          + 256 * (w div 256 div 256 div 256)))"
    unfolding word_bytes_def d2 d3 by (simp add: u top)
  also have "\<dots> = w"
    by (simp only: mult_div_mod_eq mod_mult_div_eq add.commute)
  finally show ?thesis .
qed


lemma and_31: "(w :: int) AND 31 = w mod 32"
  using take_bit_eq_mask [of 5 w] by (simp add: take_bit_eq_mod mask_eq_exp_minus_1)

lemma and_15: "(w :: int) AND 15 = w mod 16"
  using take_bit_eq_mask [of 4 w] by (simp add: take_bit_eq_mod mask_eq_exp_minus_1)

lemma pair_word_parts:
  assumes "0 \<le> snd x" and "snd x < 16"
  shows "0 \<le> pair_word x" and "pair_word x < 2 ^ 32"
    and "raw_counter (pair_word x) = (fst x div 2) mod 2 ^ 27"
    and "valid_word (pair_word x)"
    and "pair_word x AND 0xF = snd x"
proof -
  define r where "r = (fst x div 2) mod 2 ^ 27"
  have r: "0 \<le> r" "r < 2 ^ 27"
    unfolding r_def by simp_all
  have w: "pair_word x = 32 * r + snd x"
    by (simp add: pair_word_def r_def)
  show "0 \<le> pair_word x" and "pair_word x < 2 ^ 32"
    unfolding w using r assms by simp_all
  show "raw_counter (pair_word x) = (fst x div 2) mod 2 ^ 27"
    unfolding w raw_counter_def drop_bit_eq_div r_def [symmetric] using assms by simp
  have low: "pair_word x AND 31 = snd x"
    unfolding w and_31 using assms by simp
  have "pair_word x AND 16 = (pair_word x AND 31) AND 16"
    by (simp add: and.assoc)
  also have "\<dots> = (snd x AND 15) AND 16"
    unfolding low and_15 using assms by simp
  also have "\<dots> = 0"
    by (simp add: and.assoc)
  finally show "valid_word (pair_word x)"
    by (simp add: valid_word_def)
  have "pair_word x AND 15 = (pair_word x AND 31) AND 15"
    by (simp add: and.assoc)
  also have "\<dots> = snd x"
    unfolding low and_15 using assms by simp
  finally show "pair_word x AND 0xF = snd x"
    by simp
qed

lemma format_04b_bit_string:
  assumes "0 \<le> p" and "p < 16"
  shows "format_04b p = bit_string p"
proof -
  have "nat p < 16"
    using assms by simp
  then have "nat p \<in> set [0 ..< 16]"
    by simp
  moreover have "list_all (\<lambda>n. format_04b (int n) = bit_string (int n)) [0 ..< 16]"
    by code_simp
  ultimately have "format_04b (int (nat p)) = bit_string (int (nat p))"
    unfolding list_all_iff by blast
  then show ?thesis
    using assms(1) by simp
qed

lemma filler_words_eq: "filler_words = [4294967280, 16]"
  by (simp add: filler_words_def)

lemma run_filler:
  "p \<le> 134217727 \<Longrightarrow> run c p (4294967280 # 16 # ws) = run (c + 1) 0 ws"
  by (simp add: raw_counter_def valid_word_def drop_bit_eq_div)

lemma run_fillers:
  "p \<le> 134217727 \<Longrightarrow>
   run c p (concat (replicate k filler_words) @ ws) = run (c + int k) (if k = 0 then p else 0) ws"
proof (induction k arbitrary: c p)
  case 0
  then show ?case by simp
next
  case (Suc k)
  have "run c p (concat (replicate (Suc k) filler_words) @ ws)
      = run c p (4294967280 # 16 # (concat (replicate k filler_words) @ ws))"
    by (simp add: filler_words_eq)
  also have "\<dots> = run (c + 1) 0 (concat (replicate k filler_words) @ ws)"
    using Suc.prems by (rule run_filler)
  also have "\<dots> = run (c + 1 + int k) (if k = 0 then 0 else 0) ws"
    by (rule Suc.IH) simp
  finally show ?case
    by (simp add: ac_simps)
qed

lemma same_period_mod:
  assumes "(a :: int) \<le> b" and "b div 2 ^ 27 = a div 2 ^ 27"
  shows "a mod 2 ^ 27 \<le> b mod 2 ^ 27"
proof -
  have "a = 134217728 * (a div 134217728) + a mod 134217728"
    and "b = 134217728 * (b div 134217728) + b mod 134217728"
    by simp_all
  moreover have "b div 134217728 = a div 134217728"
    using assms(2) by simp
  ultimately have "a mod 134217728 \<le> b mod 134217728"
    using assms(1) by linarith
  then show ?thesis by simp
qed

lemma run_encoded:
  assumes "\<forall>x \<in> set ps. 0 \<le> snd x \<and> snd x < 16"
    and "0 \<le> a"
    and "sorted (a # map (\<lambda>x. fst x div 2) ps)"
    and "p = - 1 \<or> 0 \<le> p \<and> p \<le> a mod 2 ^ 27"
  shows "run (a div 2 ^ 27) p (encode_words a ps) = map (\<lambda>x. (fst x div 2, pair_word x)) ps"
  using assms
proof (induction ps arbitrary: a p)
  case Nil
  then show ?case by simp
next
  case (Cons x ps)
  define b where "b = fst x div 2"
  define k where "k = nat (b div 2 ^ 27 - a div 2 ^ 27)"
  have x: "0 \<le> snd x" "snd x < 16"
    using Cons.prems(1) by simp_all
  have ab: "a \<le> b" and rest: "sorted (b # map (\<lambda>x. fst x div 2) ps)"
    using Cons.prems(3) by (simp_all add: b_def)
  have b: "0 \<le> b"
    using Cons.prems(2) ab by simp
  have quot: "a div 2 ^ 27 \<le> b div 2 ^ 27"
    using ab by (intro zdiv_mono1) simp_all
  then have k: "a div 2 ^ 27 + int k = b div 2 ^ 27"
    by (simp add: k_def)
  have "a mod 2 ^ 27 < 2 ^ 27"
    by simp
  then have p: "p \<le> 134217727"
    using Cons.prems(4) by auto
  define p' where "p' = (if k = 0 then p else 0)"
  have raw: "raw_counter (pair_word x) = b mod 2 ^ 27"
    using x by (simp add: pair_word_parts b_def)
  have valid: "valid_word (pair_word x)"
    using x by (rule pair_word_parts)
  have no_rollover: "\<not> (p' \<noteq> - 1 \<and> b mod 2 ^ 27 < p')"
  proof (cases "k = 0")
    case True
    then have "b div 2 ^ 27 = a div 2 ^ 27"
      using k by simp
    with ab have "a mod 2 ^ 27 \<le> b mod 2 ^ 27"
      by (rule same_period_mod)
    then show ?thesis
      using Cons.prems(4) True by (auto simp: p'_def)
  next
    case False
    have "0 \<le> b mod 2 ^ 27"
      by simp
    then show ?thesis
      using False by (simp add: p'_def)
  qed
  have abs: "b mod 2 ^ 27 + 2 ^ 27 * (b div 2 ^ 27) = b"
    by (simp add: add.commute)
  have IH: "run (b div 2 ^ 27) (b mod 2 ^ 27) (encode_words b ps)
      = map (\<lambda>x. (fst x div 2, pair_word x)) ps"
    using Cons.prems(1) b rest by (intro Cons.IH) simp_all
  have "run (a div 2 ^ 27) p (encode_words a (x # ps))
      = run (a div 2 ^ 27) p (concat (replicate k filler_words) @ pair_word x # encode_words b ps)"
    by (simp add: b_def k_def)
  also have "\<dots> = run (a div 2 ^ 27 + int k) p' (pair_word x # encode_words b ps)"
    unfolding p'_def using p by (rule run_fillers)
  also have "\<dots> = run (b div 2 ^ 27) p' (pair_word x # encode_words b ps)"
    unfolding k ..
  also have "\<dots> = (b mod 2 ^ 27 + 2 ^ 27 * (b div 2 ^ 27), pair_word x)
      # run (b div 2 ^ 27) (b mod 2 ^ 27) (encode_words b ps)"
    unfolding run.simps raw Let_def using valid no_rollover by simp
  finally show ?case
    unfolding abs IH by (simp add: b_def)
qed

lemma le_words_word_bytes:
  "\<forall>w \<in> set ws. 0 \<le> w \<and> w < 2 ^ 32 \<Longrightarrow> le_words (concat (map word_bytes ws)) = ws"
proof (induction ws)
  case Nil
  then show ?case by simp
next
  case (Cons w ws)
  have "0 \<le> w" "w < 2 ^ 32"
    using Cons.prems by simp_all
  then have "le_uint (word_bytes w) = w"
    by (rule le_uint_word_bytes)
  moreover have "length (word_bytes w) = 4"
    by (simp add: word_bytes_def)
  ultimately show ?case
    using Cons by (simp add: le_words_first)
qed

lemma words_of_word_bytes:
  assumes "\<forall>w \<in> set ws. 0 \<le> w \<and> w < 2 ^ 32"
  shows "words_of (concat (map word_bytes ws)) = ws"
proof -
  have "length (concat (map word_bytes ws)) = 4 * length ws"
    by (induction ws) (simp_all add: word_bytes_def)
  then have "length (concat (map word_bytes ws)) mod 4 = 0"
    by simp
  then have "words_of (concat (map word_bytes ws)) = le_words (concat (map word_bytes ws))"
    by (rule words_of_aligned)
  then show ?thesis
    using assms by (simp add: le_words_word_bytes)
qed

lemma encode_words_range:
  assumes "\<forall>x \<in> set ps. 0 \<le> snd x \<and> snd x < 16"
  shows "\<forall>w \<in> set (encode_words a ps). 0 \<le> w \<and> w < 2 ^ 32"
  using assms
proof (induction ps arbitrary: a)
  case Nil
  then show ?case by simp
next
  case (Cons x ps)
  have x: "0 \<le> snd x" "snd x < 16"
    using Cons.prems by simp_all
  have "0 \<le> pair_word x" "pair_word x < 2 ^ 32"
    using x by (rule pair_word_parts)+
  moreover have "\<forall>w \<in> set (encode_words (fst x div 2) ps). 0 \<le> w \<and> w < 2 ^ 32"
    using Cons.prems by (intro Cons.IH) simp
  ultimately show ?case
    by (auto simp: filler_words_eq)
qed

lemma sorted_halves:
  "sorted (map fst ps) \<Longrightarrow> sorted (map (\<lambda>x. fst x div 2) (ps :: (int \<times> 'a) list))"
  by (induction ps) (auto simp: zdiv_mono1)

lemma decode_encoded:
  assumes "\<forall>x \<in> set ps. 0 \<le> fst x \<and> 0 \<le> snd x \<and> snd x < 16"
    and "sorted (map fst ps)"
  shows "run 0 (- 1) (words_of (encode_pairs ps)) = map (\<lambda>x. (fst x div 2, pair_word x)) ps"
proof -
  have pat: "\<forall>x \<in> set ps. 0 \<le> snd x \<and> snd x < 16"
    using assms(1) by simp
  have words: "words_of (encode_pairs ps) = encode_words 0 ps"
    unfolding encode_pairs_def using encode_words_range [OF pat] by (rule words_of_word_bytes)
  have "\<forall>t \<in> set (map (\<lambda>x. fst x div 2) ps). 0 \<le> t"
    using assms(1) by (auto simp: pos_imp_zdiv_nonneg_iff)
  then have "sorted (0 # map (\<lambda>x. fst x div 2) ps)"
    using sorted_halves [OF assms(2)] by simp
  then have "run (0 div 2 ^ 27) (- 1) (encode_words 0 ps)
      = map (\<lambda>x. (fst x div 2, pair_word x)) ps"
    using pat by (intro run_encoded) simp_all
  then show ?thesis
    unfolding words by simp
qed


lemma timestamps_below: "t \<in> set (timestamps r) \<Longrightarrow> t < 2 ^ 63"
proof (cases r)
  case (Inl e)
  assume "t \<in> set (timestamps r)"
  then show ?thesis
    using Inl by (simp add: timestamps_def)
next
  case (Inr out)
  assume "t \<in> set (timestamps r)"
  then obtain w :: int64 where "t = sint w"
    using Inr by (cases out) (auto simp: timestamps_def)
  then show ?thesis
    using sint_lt [of w] by simp
qed

text \<open>
  C6, as the code has it. Encode pairs whose ticks are even, non-negative, non-decreasing
  and below \<open>2 ^ 63\<close> and whose patterns are 4-bit numbers. Then \<open>read_timestamps\<close> on the
  encoded stream returns the ticks and the patterns of the pairs, in order; the patterns
  come back as integers or, in legacy mode, as 4-character bit strings.
\<close>

theorem round_trip:
  assumes "\<forall>x \<in> set ps. even (fst x) \<and> 0 \<le> fst x \<and> fst x < 2 ^ 63
             \<and> 0 \<le> snd x \<and> snd x < 16"
    and "sorted (map fst ps)"
  shows "returned (read_timestamps (encode_pairs ps) legacy)
     \<and> timestamps (read_timestamps (encode_pairs ps) legacy) = map fst ps
     \<and> channels (read_timestamps (encode_pairs ps) legacy)
         = map (\<lambda>x. if legacy then ChStr (bit_string (snd x)) else ChInt (snd x)) ps"
proof -
  have pat: "\<forall>x \<in> set ps. 0 \<le> snd x \<and> snd x < 16"
    and ev: "\<forall>x \<in> set ps. even (fst x)"
    and nonneg: "\<forall>x \<in> set ps. 0 \<le> fst x \<and> 0 \<le> snd x \<and> snd x < 16"
    using assms(1) by simp_all
  have half: "\<forall>x \<in> set ps. 0 \<le> fst x div 2 \<and> fst x div 2 < 2 ^ 62"
  proof
    fix x assume "x \<in> set ps"
    then have "0 \<le> fst x" "fst x < 2 ^ 63"
      using assms(1) by simp_all
    then show "0 \<le> fst x div 2 \<and> fst x div 2 < 2 ^ 62"
      by simp
  qed
  have run: "run 0 (- 1) (words_of (encode_pairs ps)) = map (\<lambda>x. (fst x div 2, pair_word x)) ps"
    using nonneg assms(2) by (rule decode_encoded)
  have "\<forall>x \<in> set ps. - (2 ^ 63) \<le> fst x div 2 \<and> fst x div 2 < 2 ^ 63"
    using half by fastforce
  then have res: "read_timestamps (encode_pairs ps) legacy
      = Inr (map (\<lambda>x. word_of_int (fst x div 2) * 2) ps,
             map (\<lambda>x. render legacy (pair_word x)) ps)"
    unfolding read_timestamps_unfold run by (simp add: list_all_iff comp_def)
  have "\<forall>x \<in> set ps. sint ((word_of_int (fst x div 2) :: int64) * 2) = 2 * (fst x div 2)"
    using half sint_timestamp by blast
  then have "\<forall>x \<in> set ps. sint ((word_of_int (fst x div 2) :: int64) * 2) = fst x"
    using ev by simp
  then have ts: "timestamps (read_timestamps (encode_pairs ps) legacy) = map fst ps"
    unfolding res timestamps_Inr by simp
  have "\<forall>x \<in> set ps. render legacy (pair_word x)
      = (if legacy then ChStr (bit_string (snd x)) else ChInt (snd x))"
    using pat by (simp add: render_def pair_word_parts format_04b_bit_string)
  then have ch: "channels (read_timestamps (encode_pairs ps) legacy)
      = map (\<lambda>x. if legacy then ChStr (bit_string (snd x)) else ChInt (snd x)) ps"
    unfolding res channels_Inr by simp
  have "returned (read_timestamps (encode_pairs ps) legacy)"
    unfolding res by (rule returned_Inr)
  with ts ch show ?thesis
    by (intro conjI)
qed


theorem round_trip_witness:
  "list_all (\<lambda>x. even (fst x) \<and> 0 \<le> fst x \<and> fst x < 2 ^ 63 \<and> 0 \<le> snd x \<and> snd x < 16)
       [(10 :: int, 1 :: int), (536870916, 6)]
   \<and> sorted (map fst [(10 :: int, 1 :: int), (536870916, 6)])
   \<and> encode_pairs [(10, 1), (536870916, 6)]
       = [0xA1, 0, 0, 0, 0xF0, 0xFF, 0xFF, 0xFF, 0x10, 0, 0, 0,
          0xF0, 0xFF, 0xFF, 0xFF, 0x10, 0, 0, 0, 0x46, 0, 0, 0]
   \<and> returned (read_timestamps (encode_pairs [(10, 1), (536870916, 6)]) True)
   \<and> timestamps (read_timestamps (encode_pairs [(10, 1), (536870916, 6)]) True)
       = [10, 536870916]
   \<and> channels (read_timestamps (encode_pairs [(10, 1), (536870916, 6)]) True)
       = [ChStr ''0001'', ChStr ''0110'']
   \<and> channels (read_timestamps (encode_pairs [(10, 1), (536870916, 6)]) False)
       = [ChInt 1, ChInt 6]"
proof -
  have h1: "\<forall>x \<in> set [(10 :: int, 1 :: int), (536870916, 6)].
      even (fst x) \<and> 0 \<le> fst x \<and> fst x < 2 ^ 63 \<and> 0 \<le> snd x \<and> snd x < 16"
    by simp
  have h1': "list_all (\<lambda>x. even (fst x) \<and> 0 \<le> fst x \<and> fst x < 2 ^ 63 \<and> 0 \<le> snd x \<and> snd x < 16)
      [(10 :: int, 1 :: int), (536870916, 6)]"
    by simp
  have h2: "sorted (map fst [(10 :: int, 1 :: int), (536870916, 6)])"
    by simp
  have w: "encode_words 0 [(10, 1), (536870916, 6)] = [161, 4294967280, 16, 4294967280, 16, 70]"
    by (simp add: pair_word_def filler_words_eq numeral_2_eq_2)
  have enc: "encode_pairs [(10, 1), (536870916, 6)]
      = [0xA1, 0, 0, 0, 0xF0, 0xFF, 0xFF, 0xFF, 0x10, 0, 0, 0,
         0xF0, 0xFF, 0xFF, 0xFF, 0x10, 0, 0, 0, 0x46, 0, 0, 0]"
    unfolding encode_pairs_def w by (simp add: word_bytes_def)
  have m: "map fst [(10 :: int, 1 :: int), (536870916, 6)] = [10, 536870916]"
    by simp
  have cT: "map (\<lambda>x. if True then ChStr (bit_string (snd x)) else ChInt (snd x))
      [(10 :: int, 1 :: int), (536870916, 6)] = [ChStr ''0001'', ChStr ''0110'']"
    by (simp add: bit_string_def)
  have cF: "map (\<lambda>x. if False then ChStr (bit_string (snd x)) else ChInt (snd x))
      [(10 :: int, 1 :: int), (536870916, 6)] = [ChInt 1, ChInt 6]"
    by simp
  from round_trip [OF h1 h2, of True]
  have "returned (read_timestamps (encode_pairs [(10, 1), (536870916, 6)]) True)
     \<and> timestamps (read_timestamps (encode_pairs [(10, 1), (536870916, 6)]) True)
         = [10, 536870916]
     \<and> channels (read_timestamps (encode_pairs [(10, 1), (536870916, 6)]) True)
         = [ChStr ''0001'', ChStr ''0110'']"
    unfolding m cT .
  moreover from round_trip [OF h1 h2, of False]
  have "channels (read_timestamps (encode_pairs [(10, 1), (536870916, 6)]) False)
      = [ChInt 1, ChInt 6]"
    unfolding m cF by (elim conjE)
  ultimately show ?thesis
    using h1' h2 enc by (elim conjE) (intro conjI; assumption)
qed

text \<open>
  The claim C6 as stated fails, whatever the encoder. The tick \<open>2 ^ 63\<close> is even and splits
  into the rollover count \<open>2 ^ 35\<close> and the 27-bit raw value 0, and the encoded stream
  makes the decoder count exactly these rollovers; but the timestamps are an \<open>int64\<close>
  array, the doubling of the tick count \<open>2 ^ 62\<close> wraps, and the pair comes back with the
  timestamp \<open>- (2 ^ 63)\<close>. No byte stream at all is decoded to the timestamp \<open>2 ^ 63\<close>.
\<close>

theorem round_trip_counterexample:
  "timestamps (read_timestamps (encode_pairs [(2 ^ 63, 1)]) False) = [- (2 ^ 63)]
   \<and> timestamps (read_timestamps (encode_pairs [(2 ^ 63, 1)]) False)
       \<noteq> map fst [(2 ^ 63 :: int, 1 :: int)]
   \<and> (\<forall>bs legacy. timestamps (read_timestamps bs legacy) \<noteq> map fst [(2 ^ 63 :: int, 1 :: int)])"
proof -
  have "\<forall>x \<in> set [(2 ^ 63 :: int, 1 :: int)]. 0 \<le> fst x \<and> 0 \<le> snd x \<and> snd x < 16"
    by simp
  moreover have "sorted (map fst [(2 ^ 63 :: int, 1 :: int)])"
    by simp
  ultimately have "run 0 (- 1) (words_of (encode_pairs [(2 ^ 63, 1)]))
      = map (\<lambda>x. (fst x div 2, pair_word x)) [(2 ^ 63, 1)]"
    by (rule decode_encoded)
  then have run: "run 0 (- 1) (words_of (encode_pairs [(2 ^ 63, 1)]))
      = [(2 ^ 62, pair_word (2 ^ 63, 1))]"
    by simp
  have "read_timestamps (encode_pairs [(2 ^ 63, 1)]) False
      = Inr ([word_of_int (2 ^ 62) * 2], [render False (pair_word (2 ^ 63, 1))])"
    unfolding read_timestamps_unfold run by simp
  then have "timestamps (read_timestamps (encode_pairs [(2 ^ 63, 1)]) False)
      = [sint ((word_of_int (2 ^ 62) :: int64) * 2)]"
    by (simp only: timestamps_Inr list.map)
  then have a: "timestamps (read_timestamps (encode_pairs [(2 ^ 63, 1)]) False) = [- (2 ^ 63)]"
    by simp
  have b: "timestamps (read_timestamps bs legacy) \<noteq> map fst [(2 ^ 63 :: int, 1 :: int)]"
    for bs legacy
  proof
    assume "timestamps (read_timestamps bs legacy) = map fst [(2 ^ 63 :: int, 1 :: int)]"
    then have "(2 ^ 63 :: int) \<in> set (timestamps (read_timestamps bs legacy))"
      by simp
    then have "(2 ^ 63 :: int) < 2 ^ 63"
      by (rule timestamps_below)
    then show False by simp
  qed
  from a b [of "encode_pairs [(2 ^ 63, 1)]" False] b show ?thesis
    by (intro conjI allI)
qed

end
